theory Spec2Isabelle
  imports Main
begin



section \<open>Scoring engine\<close>

text \<open>
  A JavaScript string is a sequence of UTF-16 code units; \<^verbatim>\<open>split("")\<close> and
  \<^verbatim>\<open>length\<close> work on those units. A word is modelled as a list over a type \<open>'c\<close>
  of code units (\<^typ>\<open>char\<close> for the concrete corpora below).

  Reading an array past its end gives \<^verbatim>\<open>undefined\<close> in JavaScript; \<open>jsIndex\<close>
  returns \<open>None\<close> there.
\<close>

datatype Score = Correct | Present | Absent

definition jsIndex :: "'a list \<Rightarrow> nat \<Rightarrow> 'a option" where
  "jsIndex xs i = (if i < length xs then Some (xs ! i) else None)"

type_synonym 'c counts = "'c \<rightharpoonup> nat"

text \<open>
  \<^verbatim>\<open>remainingCounts\<close> is a plain object keyed by single code units: a key that was
  never written reads as \<^verbatim>\<open>undefined\<close> (\<open>None\<close>). The first loop of
  \<^verbatim>\<open>scoreWordleGuess\<close>, one iteration at index \<open>i\<close> (always below the answer's
  length): \<^verbatim>\<open>guessArr[i] === answerArr[i]\<close> marks the position correct, otherwise
  \<^verbatim>\<open>remainingCounts[ch] = (remainingCounts[ch] || 0) + 1\<close>.
\<close>

definition firstPassStep ::
  "'c list \<Rightarrow> 'c list \<Rightarrow> nat \<Rightarrow> Score list \<times> 'c counts \<Rightarrow> Score list \<times> 'c counts" where
  "firstPassStep guessArr answerArr i st =
     (case st of (result, remainingCounts) \<Rightarrow>
        if jsIndex guessArr i = Some (answerArr ! i)
        then (result[i := Correct], remainingCounts)
        else (let ch = answerArr ! i
              in (result,
                  remainingCounts(ch \<mapsto> (case remainingCounts ch of None \<Rightarrow> 0 | Some n \<Rightarrow> n) + 1))))"

text \<open>
  The second loop, one iteration: a position already correct is skipped; otherwise
  \<^verbatim>\<open>remainingCounts[ch] > 0\<close> marks it present and decrements the count. When
  \<^verbatim>\<open>guessArr[i]\<close> is \<^verbatim>\<open>undefined\<close> the lookup uses the key "undefined", which
  no single code unit of the answer can have written, so the comparison is false.
\<close>

definition secondPassStep ::
  "'c list \<Rightarrow> nat \<Rightarrow> Score list \<times> 'c counts \<Rightarrow> Score list \<times> 'c counts" where
  "secondPassStep guessArr i st =
     (case st of (result, remainingCounts) \<Rightarrow>
        if result ! i = Correct then st
        else (case jsIndex guessArr i of
                None \<Rightarrow> st
              | Some ch \<Rightarrow>
                  (case remainingCounts ch of
                     None \<Rightarrow> st
                   | Some n \<Rightarrow>
                       if 0 < n then (result[i := Present], remainingCounts(ch \<mapsto> n - 1))
                       else st)))"

definition scoreWordleGuess :: "'c list \<Rightarrow> 'c list \<Rightarrow> Score list" where
  "scoreWordleGuess guess answer =
     (let len = length answer;
          result = replicate len Absent;
          pass1 = fold (firstPassStep guess answer) [0..<len] (result, Map.empty);
          pass2 = fold (secondPassStep guess) [0..<len] pass1
      in fst pass2)"


text \<open>The number a tally holds for a letter, reading a missing key as 0.\<close>

definition cnt :: "'c counts \<Rightarrow> 'c \<Rightarrow> nat" where
  "cnt m L = (case m L of None \<Rightarrow> 0 | Some n \<Rightarrow> n)"


text \<open>\<^verbatim>\<open>computeStreakleResults\<close>: one board per target, one row per guess.\<close>

definition computeStreakleResults :: "'c list list \<Rightarrow> 'c list list \<Rightarrow> Score list list list" where
  "computeStreakleResults guesses targets =
     map (\<lambda>target. map (\<lambda>guess. scoreWordleGuess guess target) guesses) targets"

section \<open>Session state machines\<close>

text \<open>
  Each handler reads the React state of its mode and either returns early or calls the
  setters. The model passes the state in and returns the outcome together with the next
  state. Message strings, the input box and the display timer are left out. The argument
  \<open>raw\<close> is the submitted text after \<^verbatim>\<open>trim().toUpperCase()\<close>, and \<open>wordSet\<close> is the
  \<^verbatim>\<open>Set\<close> built from the loaded word list (\<open>None\<close> while it is \<^verbatim>\<open>null\<close>).
\<close>

datatype rejection =
    NoSession | Terminal | BadLength | NotInWordList | NoGuessesLeft | LockedLetters
  | Loading | TooShort | MissingCenter | OutsideHive | NotValidWord | AlreadyFound

datatype outcome = Accepted | Rejected rejection | Threw

definition hasWord :: "string set option \<Rightarrow> string \<Rightarrow> bool" where
  "hasWord wordSet raw = (case wordSet of None \<Rightarrow> False | Some ws \<Rightarrow> raw \<in> ws)"

subsection \<open>Wordle\<close>

record wordle_state =
  wordleAnswer :: "string option"
  wordleGuesses :: "string list"
  wordleResults :: "Score list list"
  wordleDone :: bool

text \<open>\<^verbatim>\<open>!wordleAnswer\<close> holds for \<^verbatim>\<open>null\<close> and for the empty string.\<close>

definition handleWordleSubmit ::
  "string set option \<Rightarrow> wordle_state \<Rightarrow> string \<Rightarrow> outcome \<times> wordle_state" where
  "handleWordleSubmit wordSet s raw =
     (case wordleAnswer s of
        None \<Rightarrow> (Rejected NoSession, s)
      | Some answer \<Rightarrow>
          if answer = [] then (Rejected NoSession, s)
          else if wordleDone s then (Rejected Terminal, s)
          else if length raw \<noteq> 5 then (Rejected BadLength, s)
          else if \<not> hasWord wordSet raw then (Rejected NotInWordList, s)
          else if 6 \<le> length (wordleGuesses s) then (Rejected NoGuessesLeft, s)
          else
            (let score = scoreWordleGuess raw answer;
                 newGuesses = wordleGuesses s @ [raw];
                 newResults = wordleResults s @ [score]
             in (Accepted,
                 s\<lparr>wordleGuesses := newGuesses,
                   wordleResults := newResults,
                   wordleDone := (raw = answer \<or> 6 \<le> length newGuesses)\<rparr>)))"

text \<open>\<^verbatim>\<open>startNewWordleGame\<close> with the picked answer as the argument, and a run of submits.\<close>

definition startNewWordleGame :: "string \<Rightarrow> wordle_state" where
  "startNewWordleGame answer =
     \<lparr>wordleAnswer = Some answer, wordleGuesses = [], wordleResults = [], wordleDone = False\<rparr>"

definition wordleRun :: "string set option \<Rightarrow> wordle_state \<Rightarrow> string list \<Rightarrow> wordle_state" where
  "wordleRun wordSet s raws = fold (\<lambda>raw st. snd (handleWordleSubmit wordSet st raw)) raws s"

text \<open>
  The keyboard hints \<^verbatim>\<open>wordleLetterStates\<close>: a record from letters to scores, filled by
  a loop over the guesses and, inside, over the positions of each guess. A missing row
  reads as the empty row, a missing entry of a row as \<^verbatim>\<open>undefined\<close>.
\<close>

definition letterCell :: "'c \<Rightarrow> Score \<Rightarrow> ('c \<rightharpoonup> Score) \<Rightarrow> ('c \<rightharpoonup> Score)" where
  "letterCell letter status states =
     (let prev = states letter
      in case status of
           Correct \<Rightarrow> states(letter \<mapsto> Correct)
         | Present \<Rightarrow> if prev \<noteq> Some Correct then states(letter \<mapsto> Present) else states
         | Absent \<Rightarrow> if prev = None then states(letter \<mapsto> Absent) else states)"

definition letterRow :: "'c list \<Rightarrow> Score list \<Rightarrow> ('c \<rightharpoonup> Score) \<Rightarrow> ('c \<rightharpoonup> Score)" where
  "letterRow guess resultRow states =
     fold (\<lambda>i st. case (jsIndex guess i, jsIndex resultRow i) of
                     (Some letter, Some status) \<Rightarrow> letterCell letter status st
                   | _ \<Rightarrow> st)
          [0..<length guess] states"

definition wordleLetterStates :: "'c list list \<Rightarrow> Score list list \<Rightarrow> ('c \<rightharpoonup> Score)" where
  "wordleLetterStates guesses results =
     fold (\<lambda>rowIndex st.
             letterRow (guesses ! rowIndex)
               (case jsIndex results rowIndex of None \<Rightarrow> [] | Some row \<Rightarrow> row) st)
          [0..<length guesses] Map.empty"

text \<open>The order \<open>absent < present < correct\<close>, with "no hint yet" below all three.\<close>

fun hintRank :: "Score option \<Rightarrow> nat" where
  "hintRank None = 0"
| "hintRank (Some Absent) = 1"
| "hintRank (Some Present) = 2"
| "hintRank (Some Correct) = 3"

text \<open>One hint table is below another when every letter ranks no higher in it.\<close>

definition hintsLe :: "('c \<rightharpoonup> Score) \<Rightarrow> ('c \<rightharpoonup> Score) \<Rightarrow> bool" where
  "hintsLe s t = (\<forall>L. hintRank (s L) \<le> hintRank (t L))"

subsection \<open>Quordle\<close>

record quordle_state =
  quordleAnswers :: "string list option"
  quordleGuesses :: "string list"
  quordleResults :: "Score list list list"
  quordleDone :: bool
  quordleWins :: "bool list"

text \<open>
  One iteration of the loop over the four boards. \<^verbatim>\<open>quordleWins\<close> and the copied
  \<^verbatim>\<open>newResults\<close> have four entries in every state the application builds (the initial
  value, \<^verbatim>\<open>startNewQuordleGame\<close> and this handler), so the updates are in range and
  the guard that replaces a missing row of \<^verbatim>\<open>newResults\<close> never fires.
\<close>

definition quordleBoardStep ::
  "string \<Rightarrow> string list \<Rightarrow> nat \<Rightarrow> Score list list list \<times> bool list
     \<Rightarrow> Score list list list \<times> bool list" where
  "quordleBoardStep raw answers boardIndex st =
     (case st of (newResults, newWins) \<Rightarrow>
        (let answer = answers ! boardIndex;
             score = scoreWordleGuess raw answer
         in (newResults[boardIndex := newResults ! boardIndex @ [score]],
             if \<not> newWins ! boardIndex \<and> raw = answer then newWins[boardIndex := True]
             else newWins)))"

text \<open>
  With fewer than four answers \<^verbatim>\<open>scoreWordleGuess(raw, undefined)\<close> throws before any
  setter runs.
\<close>

definition handleQuordleSubmit ::
  "string set option \<Rightarrow> quordle_state \<Rightarrow> string \<Rightarrow> outcome \<times> quordle_state" where
  "handleQuordleSubmit wordSet s raw =
     (case quordleAnswers s of
        None \<Rightarrow> (Rejected NoSession, s)
      | Some answers \<Rightarrow>
          if quordleDone s then (Rejected Terminal, s)
          else if length raw \<noteq> 5 then (Rejected BadLength, s)
          else if \<not> hasWord wordSet raw then (Rejected NotInWordList, s)
          else if 9 \<le> length (quordleGuesses s) then (Rejected NoGuessesLeft, s)
          else if length answers < 4 then (Threw, s)
          else
            (let newGuesses = quordleGuesses s @ [raw];
                 copied = (if length (quordleResults s) = 4 then quordleResults s
                           else replicate 4 []);
                 (newResults, newWins) =
                    fold (quordleBoardStep raw answers) [0..<4] (copied, quordleWins s);
                 allSolved = list_all (\<lambda>w. w) newWins
             in (Accepted,
                 s\<lparr>quordleGuesses := newGuesses,
                   quordleResults := newResults,
                   quordleWins := newWins,
                   quordleDone := (allSolved \<or> 9 \<le> length newGuesses)\<rparr>)))"

text \<open>\<^verbatim>\<open>startNewQuordleGame\<close>, with the four picked answers as the argument.\<close>

definition startNewQuordleGame :: "string list \<Rightarrow> quordle_state" where
  "startNewQuordleGame picked =
     \<lparr>quordleAnswers = Some picked, quordleGuesses = [], quordleResults = replicate 4 [],
      quordleDone = False, quordleWins = [False, False, False, False]\<rparr>"

definition quordleRun :: "string set option \<Rightarrow> quordle_state \<Rightarrow> string list \<Rightarrow> quordle_state" where
  "quordleRun wordSet s raws = fold (\<lambda>raw st. snd (handleQuordleSubmit wordSet st raw)) raws s"

subsection \<open>Streakle\<close>

record streakle_state =
  streakleTargets :: "string list option"
  streakleCurrentIndex :: nat
  streakleGuesses :: "string list"
  streakleResults :: "Score list list list"
  streakleDone :: bool
  streakleSolved :: "bool list"

text \<open>
  A pattern slot is a one-letter string, the wildcard \<^verbatim>\<open>"_"\<close>, or \<^verbatim>\<open>undefined\<close>
  (\<open>None\<close>). Assigning past the end of a JavaScript array extends it; the skipped
  entries read as \<^verbatim>\<open>undefined\<close>.
\<close>

type_synonym slot = "char option"

definition wildcard :: slot where
  "wildcard = Some CHR ''_''"

definition jsAssign :: "'a option list \<Rightarrow> nat \<Rightarrow> 'a option \<Rightarrow> 'a option list" where
  "jsAssign xs i v =
     (if i < length xs then xs[i := v] else xs @ replicate (i - length xs) None @ [v])"

text \<open>\<^verbatim>\<open>findIndex((v) => !v)\<close>: the first index holding false, \<open>None\<close> for -1.\<close>

fun findIndexFalse :: "bool list \<Rightarrow> nat option" where
  "findIndexFalse [] = None"
| "findIndexFalse (v # vs) =
     (if \<not> v then Some 0 else map_option Suc (findIndexFalse vs))"

text \<open>
  \<^verbatim>\<open>streakleLockedPattern\<close>: the inner loop over the columns of one feedback row, then
  the loop over the rows of the active board. \<^verbatim>\<open>streakleGuesses[row]\<close> is falsy when the
  row has no guess or the guess is empty.
\<close>

definition lockedRow :: "string option \<Rightarrow> Score list \<Rightarrow> slot list \<Rightarrow> slot list" where
  "lockedRow guess resultRow pattern =
     fold (\<lambda>col p. case guess of
                      None \<Rightarrow> p
                    | Some g \<Rightarrow>
                        if resultRow ! col = Correct \<and> g \<noteq> [] then jsAssign p col (jsIndex g col)
                        else p)
          [0..<length resultRow] pattern"

definition streakleLockedPattern :: "streakle_state \<Rightarrow> slot list" where
  "streakleLockedPattern s =
     (case streakleTargets s of
        None \<Rightarrow> []
      | Some targets \<Rightarrow>
          if targets = [] then []
          else
            (let boardResults =
                   (case jsIndex (streakleResults s) (streakleCurrentIndex s) of
                      None \<Rightarrow> [] | Some b \<Rightarrow> b)
             in fold (\<lambda>row p. lockedRow (jsIndex (streakleGuesses s) row) (boardResults ! row) p)
                     [0..<length boardResults] (replicate 5 wildcard)))"

definition handleStreakleSubmit ::
  "string set option \<Rightarrow> streakle_state \<Rightarrow> string \<Rightarrow> outcome \<times> streakle_state" where
  "handleStreakleSubmit wordSet s raw =
     (case streakleTargets s of
        None \<Rightarrow> (Rejected NoSession, s)
      | Some targets \<Rightarrow>
          if streakleDone s then (Rejected Terminal, s)
          else if length raw \<noteq> 5 then (Rejected BadLength, s)
          else if \<not> hasWord wordSet raw then (Rejected NotInWordList, s)
          else if 8 \<le> length (streakleGuesses s)
            then (Rejected NoGuessesLeft, s\<lparr>streakleDone := True\<rparr>)
          else if length (streakleLockedPattern s) = 5 \<and>
                  list_ex (\<lambda>i. let lock = streakleLockedPattern s ! i
                               in lock \<noteq> wildcard \<and> jsIndex raw i \<noteq> lock)
                          [0..<length (streakleLockedPattern s)]
            then (Rejected LockedLetters, s)
          else
            (let newGuesses = streakleGuesses s @ [raw];
                 newResults = computeStreakleResults newGuesses targets;
                 solved = map (\<lambda>t. t \<in> set newGuesses) targets;
                 allSolved = list_all (\<lambda>v. v) solved;
                 nextTargetIndex =
                   (if allSolved then streakleCurrentIndex s
                    else if jsIndex solved (streakleCurrentIndex s) = Some True
                      then (case findIndexFalse solved of
                              None \<Rightarrow> streakleCurrentIndex s | Some nextIdx \<Rightarrow> nextIdx)
                    else streakleCurrentIndex s);
                 done = (allSolved \<or> (8 \<le> length newGuesses \<and> \<not> allSolved))
             in (Accepted,
                 s\<lparr>streakleGuesses := newGuesses,
                   streakleResults := newResults,
                   streakleSolved := solved,
                   streakleCurrentIndex := nextTargetIndex,
                   streakleDone := done\<rparr>)))"

text \<open>
  \<^verbatim>\<open>startNewStreakleGame\<close> after its random picks: the start word and the three
  targets are the arguments. The picking loop only takes entries of the word list, and
  only pushes a candidate that differs from the start word and from the targets pushed
  before it.
\<close>

definition startNewStreakleGame :: "string \<Rightarrow> string list \<Rightarrow> streakle_state" where
  "startNewStreakleGame startWord targets =
     (let initialGuesses = [startWord];
          initialResults = computeStreakleResults initialGuesses targets;
          solved = map (\<lambda>t. t = startWord) targets;
          activeIndex = (case findIndexFalse solved of None \<Rightarrow> 0 | Some nextIndex \<Rightarrow> nextIndex);
          remaining = 8 - length initialGuesses
      in \<lparr>streakleTargets = Some targets,
          streakleCurrentIndex = activeIndex,
          streakleGuesses = initialGuesses,
          streakleResults = initialResults,
          streakleDone = (list_all (\<lambda>v. v) solved \<or> remaining \<le> 0),
          streakleSolved = solved\<rparr>)"

definition streakleRun ::
  "string set option \<Rightarrow> streakle_state \<Rightarrow> string list \<Rightarrow> streakle_state" where
  "streakleRun wordSet s raws = fold (\<lambda>raw st. snd (handleStreakleSubmit wordSet st raw)) raws s"

text \<open>
  What holds in every state reached from a new Streakle game over a word list: the
  targets stay, the stored feedback is the feedback of the guess log, every guess is a
  word of the list, the active index is one of the three boards, and a full guess log
  has set the done flag.
\<close>

definition streakleInv :: "string list \<Rightarrow> string list \<Rightarrow> streakle_state \<Rightarrow> bool" where
  "streakleInv words targets s =
     (streakleTargets s = Some targets
      \<and> streakleResults s = computeStreakleResults (streakleGuesses s) targets
      \<and> set (streakleGuesses s) \<subseteq> set words
      \<and> streakleCurrentIndex s < 3
      \<and> (8 \<le> length (streakleGuesses s) \<longrightarrow> streakleDone s))"

subsection \<open>Bee\<close>

record bee_state =
  beeLetters :: "char list option"
  beeCenterLetter :: "char option"
  beeDictLoading :: bool
  beeValidWords :: "string list"
  beePangrams :: "string list"
  beeFoundWords :: "string list"

text \<open>
  The hive letters are one-letter strings, modelled as characters; \<^verbatim>\<open>beeLetterSet\<close> and
  \<^verbatim>\<open>beeValidSet\<close> are the sets of \<^verbatim>\<open>beeLetters\<close> and \<^verbatim>\<open>beeValidWords\<close>.
\<close>

definition handleBeeSubmit :: "bee_state \<Rightarrow> string \<Rightarrow> outcome \<times> bee_state" where
  "handleBeeSubmit s raw =
     (case (beeLetters s, beeCenterLetter s) of
        (Some hive, Some centerLetter) \<Rightarrow>
          if beeDictLoading s then (Rejected Loading, s)
          else if length raw < 4 then (Rejected TooShort, s)
          else if centerLetter \<notin> set raw then (Rejected MissingCenter, s)
          else if list_ex (\<lambda>ch. ch \<notin> set hive) raw then (Rejected OutsideHive, s)
          else if raw \<notin> set (beeValidWords s) then (Rejected NotValidWord, s)
          else if raw \<in> set (beeFoundWords s) then (Rejected AlreadyFound, s)
          else (Accepted, s\<lparr>beeFoundWords := beeFoundWords s @ [raw]\<rparr>)
      | _ \<Rightarrow> (Rejected NoSession, s))"

section \<open>Randomised generators\<close>

text \<open>
  The generators call \<^verbatim>\<open>Math.random()\<close>. The model takes the random source as an
  argument: \<open>rnd k\<close> stands for the \<open>k\<close>-th call, and \<^verbatim>\<open>Math.floor(Math.random() * n)\<close>
  is an index below \<open>n\<close> (0 when \<open>n\<close> is 0). The position \<open>k\<close> in the source is
  threaded through every loop.
\<close>

type_synonym rng = "nat \<Rightarrow> nat"

definition randomIndex :: "rng \<Rightarrow> nat \<Rightarrow> nat \<Rightarrow> nat" where
  "randomIndex rnd k n = (if n = 0 then 0 else rnd k mod n)"

subsection \<open>Pattern Hunt\<close>

definition matchesPattern :: "string \<Rightarrow> slot list \<Rightarrow> bool" where
  "matchesPattern word patternArr =
     (length word = length patternArr \<and>
      list_all (\<lambda>i. let ch = patternArr ! i in \<not> (ch \<noteq> wildcard \<and> jsIndex word i \<noteq> ch))
               [0..<length patternArr])"

text \<open>
  One iteration of the search loop of \<^verbatim>\<open>generateTwoLetterPattern\<close>, reading the
  random source from position \<open>k\<close>: it either returns a pattern whose match count is
  within bounds (\<open>Inl\<close>), or goes on (\<open>Inr\<close>) with the next position and the fallback
  recorded so far (\<^verbatim>\<open>fallbackPattern\<close> and \<^verbatim>\<open>fallbackMatches\<close> are always set
  together).
\<close>

definition patternAttempt ::
  "rng \<Rightarrow> string list \<Rightarrow> nat \<Rightarrow> (slot list \<times> string list) option
     \<Rightarrow> (slot list \<times> string list) + (nat \<times> (slot list \<times> string list) option)" where
  "patternAttempt rnd words k fallback =
     (let wordLen = length (words ! 0);
          base = words ! randomIndex rnd k (length words);
          first = randomIndex rnd (k + 1) wordLen;
          candidates = filter (\<lambda>i. i \<noteq> first \<and> \<not> \<bar>int i - int first\<bar> \<le> 1) [0..<wordLen]
      in if candidates = [] then Inr (k + 2, fallback)
         else
           (let second = candidates ! randomIndex rnd (k + 2) (length candidates);
                patternArr =
                  jsAssign (jsAssign (replicate wordLen wildcard) first (jsIndex base first))
                           second (jsIndex base second);
                matches = filter (\<lambda>w. matchesPattern w patternArr) words;
                count = length matches
            in if 3 \<le> count \<and> count \<le> 15 then Inl (patternArr, matches)
               else if 2 \<le> count then
                 (case fallback of
                    None \<Rightarrow> Inr (k + 3, Some (patternArr, matches))
                  | Some (fallbackPattern, fallbackMatches) \<Rightarrow>
                      if \<bar>int count - 9\<bar> < \<bar>int (length fallbackMatches) - 9\<bar>
                      then Inr (k + 3, Some (patternArr, matches))
                      else Inr (k + 3, fallback))
               else Inr (k + 3, fallback)))"

text \<open>
  The loop with \<open>n\<close> attempts left: it ends by returning a found pattern or by running
  out of attempts with the fallback.
\<close>

datatype search = Found "slot list \<times> string list" | Exhausted "(slot list \<times> string list) option"

fun patternAttempts ::
  "rng \<Rightarrow> string list \<Rightarrow> nat \<Rightarrow> nat \<Rightarrow> (slot list \<times> string list) option \<Rightarrow> search" where
  "patternAttempts rnd words 0 k fallback = Exhausted fallback"
| "patternAttempts rnd words (Suc n) k fallback =
     (case patternAttempt rnd words k fallback of
        Inl result \<Rightarrow> Found result
      | Inr next \<Rightarrow> patternAttempts rnd words n (fst next) (snd next))"

text \<open>The last resort of \<^verbatim>\<open>generateTwoLetterPattern\<close>, taken when no fallback was recorded.\<close>

definition lastResort :: "string list \<Rightarrow> slot list \<times> string list" where
  "lastResort words =
     (let wordLen = length (words ! 0);
          base = words ! 0;
          patternArr0 = jsAssign (replicate wordLen wildcard) 0 (jsIndex base 0);
          patternArr = (if 2 < wordLen
                        then jsAssign patternArr0 (wordLen - 1) (jsIndex base (wordLen - 1))
                        else patternArr0);
          matches = filter (\<lambda>w. matchesPattern w patternArr) words
      in (patternArr, matches))"

definition generateTwoLetterPattern :: "rng \<Rightarrow> string list \<Rightarrow> slot list \<times> string list" where
  "generateTwoLetterPattern rnd words =
     (if words = [] then ([], [])
      else case patternAttempts rnd words 5000 0 None of
             Found result \<Rightarrow> result
           | Exhausted (Some fallback) \<Rightarrow> fallback
           | Exhausted None \<Rightarrow> lastResort words)"

text \<open>
  The positions of a pattern that hold something other than the wildcard, in increasing
  order; and the Pattern Hunt invariant: exactly two such positions, not adjacent.
\<close>

definition concreteSlots :: "slot list \<Rightarrow> nat list" where
  "concreteSlots patternArr = filter (\<lambda>i. patternArr ! i \<noteq> wildcard) [0..<length patternArr]"

definition twoSeparatedSlots :: "slot list \<Rightarrow> bool" where
  "twoSeparatedSlots patternArr =
     (case concreteSlots patternArr of [i, j] \<Rightarrow> i + 1 < j | _ \<Rightarrow> False)"

text \<open>
  The pattern the specification describes for the last resort: the first and the last
  letter of the word fixed, wildcards in all other slots.
\<close>

definition firstLastPattern :: "string \<Rightarrow> slot list" where
  "firstLastPattern w =
     map (\<lambda>i. if i = 0 \<or> i = length w - 1 then Some (w ! i) else wildcard) [0..<length w]"

text \<open>A random source that always answers 0.\<close>

definition rndZero :: rng where
  "rndZero k = 0"

subsection \<open>Spelling Bee hive\<close>

text \<open>
  \<^verbatim>\<open>uniqueLetters\<close> keeps a set of seen letters and the list of first occurrences.
  Dictionary words are ASCII letters, so iterating a word by code points is iterating
  its characters.
\<close>

definition uniqueLetters :: "string \<Rightarrow> char list" where
  "uniqueLetters word =
     snd (fold (\<lambda>ch (seen, order). if ch \<notin> seen then (insert ch seen, order @ [ch])
                                    else (seen, order))
               word ({}, []))"

text \<open>
  \<^verbatim>\<open>shuffleArray\<close>: the loop runs \<open>i\<close> from the last index down to 1 and swaps
  entries \<open>i\<close> and \<open>j\<close>; it returns the copy and the next position of the random source.
\<close>

fun shuffleLoop :: "rng \<Rightarrow> nat \<Rightarrow> nat \<Rightarrow> 'a list \<Rightarrow> 'a list \<times> nat" where
  "shuffleLoop rnd k 0 copy = (copy, k)"
| "shuffleLoop rnd k (Suc i) copy =
     (let j = randomIndex rnd k (Suc i + 1)
      in shuffleLoop rnd (k + 1) i (copy[Suc i := copy ! j, j := copy ! Suc i]))"

definition shuffleArray :: "rng \<Rightarrow> nat \<Rightarrow> 'a list \<Rightarrow> 'a list \<times> nat" where
  "shuffleArray rnd k arr = shuffleLoop rnd k (length arr - 1) arr"

definition isBeeWord :: "string \<Rightarrow> char set \<Rightarrow> char \<Rightarrow> bool" where
  "isBeeWord word letterSet centerLetter =
     (if length word < 4 then False
      else if centerLetter \<notin> set word then False
      else list_all (\<lambda>ch. ch \<in> letterSet) word)"

definition isPangram :: "string \<Rightarrow> char list \<Rightarrow> bool" where
  "isPangram word letterList = list_all (\<lambda>l. l \<in> set word) letterList"

record bee_puzzle =
  letters :: "char list"
  center :: char
  valid :: "string list"
  pangrams :: "string list"

definition pangramCandidates :: "string list \<Rightarrow> string list" where
  "pangramCandidates dictionary =
     filter (\<lambda>w. length (uniqueLetters w) = 7 \<and> 7 \<le> length w) dictionary"

text \<open>
  One attempt of \<^verbatim>\<open>buildBeePuzzle\<close> for a non-empty candidate list: the record
  \<^verbatim>\<open>current\<close> it builds from the random draws starting at position \<open>k\<close>, and the
  position after them. (The source computes the pangrams after the density test; the
  computation has no effect, so the order does not matter.)
\<close>

definition beeAttempt :: "rng \<Rightarrow> string list \<Rightarrow> string list \<Rightarrow> nat \<Rightarrow> bee_puzzle \<times> nat" where
  "beeAttempt rnd dictionary candidates k =
     (let base = candidates ! randomIndex rnd k (length candidates);
          baseLetters = take 7 (uniqueLetters base);
          (shuffled, k') = shuffleArray rnd (k + 1) baseLetters;
          centerLetter = shuffled ! randomIndex rnd k' (length shuffled);
          validWords = filter (\<lambda>w. isBeeWord w (set shuffled) centerLetter) dictionary;
          pangramWords = filter (\<lambda>w. isPangram w shuffled) validWords
      in (\<lparr>letters = shuffled, center = centerLetter, valid = validWords,
           pangrams = pangramWords\<rparr>,
          k' + 1))"

text \<open>What the loop keeps as \<^verbatim>\<open>best\<close> after an attempt that passed the density test.\<close>

definition trackBest :: "bee_puzzle \<Rightarrow> bee_puzzle option \<Rightarrow> bee_puzzle option" where
  "trackBest current best =
     (case best of
        None \<Rightarrow> Some current
      | Some b \<Rightarrow> if length (valid b) < length (valid current) then Some current else best)"

text \<open>
  The loop of \<^verbatim>\<open>buildBeePuzzle\<close> with \<open>n\<close> attempts left. An empty candidate list
  makes \<^verbatim>\<open>base\<close> undefined and the loop breaks.
\<close>

fun beeAttempts ::
  "rng \<Rightarrow> string list \<Rightarrow> string list \<Rightarrow> nat \<Rightarrow> nat \<Rightarrow> bee_puzzle option \<Rightarrow> bee_puzzle option"
  where
  "beeAttempts rnd dictionary candidates 0 k best = best"
| "beeAttempts rnd dictionary candidates (Suc n) k best =
     (if candidates = [] then best
      else if 100 < length (valid (fst (beeAttempt rnd dictionary candidates k)))
        then beeAttempts rnd dictionary candidates n
               (snd (beeAttempt rnd dictionary candidates k)) best
      else if 12 \<le> length (valid (fst (beeAttempt rnd dictionary candidates k)))
              \<and> 0 < length (pangrams (fst (beeAttempt rnd dictionary candidates k)))
        then Some (fst (beeAttempt rnd dictionary candidates k))
      else beeAttempts rnd dictionary candidates n
             (snd (beeAttempt rnd dictionary candidates k))
             (trackBest (fst (beeAttempt rnd dictionary candidates k)) best))"

definition buildBeePuzzle :: "rng \<Rightarrow> string list \<Rightarrow> bee_puzzle option" where
  "buildBeePuzzle rnd dictionary =
     beeAttempts rnd dictionary (pangramCandidates dictionary) 600 0 None"

text \<open>
  The attempts in the order the loop makes them: the position of the random source at
  the start of attempt \<open>a\<close>, and the record that attempt builds.
\<close>

fun attemptPos :: "rng \<Rightarrow> string list \<Rightarrow> nat \<Rightarrow> nat" where
  "attemptPos rnd dictionary 0 = 0"
| "attemptPos rnd dictionary (Suc a) =
     snd (beeAttempt rnd dictionary (pangramCandidates dictionary) (attemptPos rnd dictionary a))"

definition nthAttempt :: "rng \<Rightarrow> string list \<Rightarrow> nat \<Rightarrow> bee_puzzle" where
  "nthAttempt rnd dictionary a =
     fst (beeAttempt rnd dictionary (pangramCandidates dictionary) (attemptPos rnd dictionary a))"

text \<open>The density cap and the acceptance test of one attempt.\<close>

definition withinCap :: "bee_puzzle \<Rightarrow> bool" where
  "withinCap p = (length (valid p) \<le> 100)"

definition accepts :: "bee_puzzle \<Rightarrow> bool" where
  "accepts p = (length (valid p) \<le> 100 \<and> 12 \<le> length (valid p) \<and> 0 < length (pangrams p))"
section \<open>Scoring engine: invariants of the two passes\<close>

lemma firstPass_inv:
  "k \<le> length a \<Longrightarrow>
   fold (firstPassStep g a) [0..<k] (replicate (length a) Absent, Map.empty) = (r, rc) \<Longrightarrow>
   r = map (\<lambda>i. if i < k \<and> jsIndex g i = Some (a ! i) then Correct else Absent) [0..<length a] \<and>
   (\<forall>L. cnt rc L = length (filter (\<lambda>i. a ! i = L \<and> jsIndex g i \<noteq> Some (a ! i)) [0..<k]))"
proof (induction k arbitrary: r rc)
  case 0
  then show ?case by (auto simp: cnt_def intro: nth_equalityI)
next
  case (Suc k)
  obtain r0 rc0 where f: "fold (firstPassStep g a) [0..<k] (replicate (length a) Absent, Map.empty) = (r0, rc0)"
    by (cases "fold (firstPassStep g a) [0..<k] (replicate (length a) Absent, Map.empty)")
  from Suc.prems have k: "k < length a" by simp
  from Suc.IH[OF _ f] k have
    r0: "r0 = map (\<lambda>i. if i < k \<and> jsIndex g i = Some (a ! i) then Correct else Absent) [0..<length a]"
    and c0: "\<And>L. cnt rc0 L = length (filter (\<lambda>i. a ! i = L \<and> jsIndex g i \<noteq> Some (a ! i)) [0..<k])"
    by auto
  from Suc.prems(2) f have step: "firstPassStep g a k (r0, rc0) = (r, rc)" by simp
  show ?case
  proof (cases "jsIndex g k = Some (a ! k)")
    case True
    with step have "r = r0[k := Correct]" "rc = rc0" by (auto simp: firstPassStep_def)
    with r0 c0 True k show ?thesis
      by (auto intro!: nth_equalityI simp: nth_list_update less_Suc_eq)
  next
    case False
    with step have "r = r0" "rc = rc0(a ! k \<mapsto> cnt rc0 (a ! k) + 1)"
      by (auto simp: firstPassStep_def cnt_def Let_def)
    with r0 c0 False k show ?thesis
      by (auto intro!: nth_equalityI simp: less_Suc_eq cnt_def)
  qed
qed


lemma secondPass_inv:
  "k \<le> length r1 \<Longrightarrow> Present \<notin> set r1 \<Longrightarrow>
   fold (secondPassStep g) [0..<k] (r1, rc1) = (r, rc) \<Longrightarrow>
   length r = length r1 \<and>
   (\<forall>i. k \<le> i \<longrightarrow> r ! i = r1 ! i) \<and>
   (\<forall>i<length r1. (r ! i = Correct) = (r1 ! i = Correct)) \<and>
   (\<forall>L. length (filter (\<lambda>i. jsIndex g i = Some L \<and> r ! i = Present) [0..<k]) + cnt rc L = cnt rc1 L)"
proof (induction k arbitrary: r rc)
  case 0
  then show ?case by auto
next
  case (Suc k)
  obtain r0 rc0 where f: "fold (secondPassStep g) [0..<k] (r1, rc1) = (r0, rc0)"
    by (cases "fold (secondPassStep g) [0..<k] (r1, rc1)")
  from Suc.prems have k: "k < length r1" by simp
  from Suc.IH[OF _ Suc.prems(2) f] k have
    len: "length r0 = length r1"
    and rest: "\<And>i. k \<le> i \<Longrightarrow> r0 ! i = r1 ! i"
    and corr: "\<And>i. i < length r1 \<Longrightarrow> (r0 ! i = Correct) = (r1 ! i = Correct)"
    and c0: "\<And>L. length (filter (\<lambda>i. jsIndex g i = Some L \<and> r0 ! i = Present) [0..<k]) + cnt rc0 L = cnt rc1 L"
    by auto
  from Suc.prems(3) f have step: "secondPassStep g k (r0, rc0) = (r, rc)" by simp
  from Suc.prems(2) k have nP: "r1 ! k \<noteq> Present" by (metis nth_mem)
  have r0k: "r0 ! k \<noteq> Present" using rest[of k] nP by simp
  consider (mark) ch n where "r0 ! k \<noteq> Correct" "jsIndex g k = Some ch" "rc0 ch = Some n" "0 < n"
    | (skip) "(r, rc) = (r0, rc0)"
    using step by (auto simp: secondPassStep_def split: if_splits option.splits)
  then show ?case
  proof cases
    case mark
    with step have rr: "r = r0[k := Present]" "rc = rc0(ch \<mapsto> n - 1)"
      by (auto simp: secondPassStep_def)
    have same: "\<And>L. filter (\<lambda>i. jsIndex g i = Some L \<and> r ! i = Present) [0..<k]
                 = filter (\<lambda>i. jsIndex g i = Some L \<and> r0 ! i = Present) [0..<k]"
      by (rule filter_cong) (auto simp: rr)
    have rk: "r ! k = Present" using rr k len by simp
    have cnt_ch: "cnt rc ch + 1 = cnt rc0 ch" using mark rr by (simp add: cnt_def)
    have cnt_other: "\<And>L. L \<noteq> ch \<Longrightarrow> cnt rc L = cnt rc0 L" using rr by (simp add: cnt_def)
    have "\<And>L. length (filter (\<lambda>i. jsIndex g i = Some L \<and> r ! i = Present) [0..<Suc k]) + cnt rc L = cnt rc1 L"
    proof -
      fix L
      show "length (filter (\<lambda>i. jsIndex g i = Some L \<and> r ! i = Present) [0..<Suc k]) + cnt rc L = cnt rc1 L"
      proof (cases "L = ch")
        case True
        then show ?thesis using same[of L] c0[of L] rk mark(2) cnt_ch by simp
      next
        case False
        then show ?thesis using same[of L] c0[of L] rk mark(2) cnt_other[of L] by simp
      qed
    qed
    moreover have "length r = length r1" using rr len by simp
    moreover have "\<forall>i. Suc k \<le> i \<longrightarrow> r ! i = r1 ! i" using rr rest by simp
    moreover have "\<forall>i<length r1. (r ! i = Correct) = (r1 ! i = Correct)"
    proof (intro allI impI)
      fix i assume i: "i < length r1"
      show "(r ! i = Correct) = (r1 ! i = Correct)"
      proof (cases "i = k")
        case True
        then show ?thesis using rk mark(1) corr[OF i] by simp
      next
        case False
        then show ?thesis using rr corr[OF i] by simp
      qed
    qed
    ultimately show ?thesis by blast
  next
    case skip
    then have rr: "r = r0" "rc = rc0" by auto
    have "\<And>L. length (filter (\<lambda>i. jsIndex g i = Some L \<and> r ! i = Present) [0..<Suc k]) + cnt rc L = cnt rc1 L"
      using c0 r0k rr by simp
    then show ?thesis using rr len rest corr by auto
  qed
qed


lemma filter_split_len:
  "length (filter (\<lambda>i. P i \<and> Q i) xs) + length (filter (\<lambda>i. P i \<and> \<not> Q i) xs) = length (filter P xs)"
  by (induction xs) auto

lemma count_list_index:
  "count_list a L = length (filter (\<lambda>i. a ! i = L) [0..<length a])"
proof (induction a rule: rev_induct)
  case Nil
  then show ?case by simp
next
  case (snoc x xs)
  have "filter (\<lambda>i. (xs @ [x]) ! i = L) [0..<length xs] = filter (\<lambda>i. xs ! i = L) [0..<length xs]"
    by (rule filter_cong) (auto simp: nth_append)
  with snoc show ?case by (simp add: count_list_append)
qed

lemma score_conservation_index:
  "length (filter (\<lambda>i. jsIndex g i = Some L \<and> scoreWordleGuess g a ! i \<noteq> Absent) [0..<length a])
     \<le> count_list a L"
proof -
  let ?n = "length a"
  obtain r1 rc1 where p1: "fold (firstPassStep g a) [0..<?n] (replicate ?n Absent, Map.empty) = (r1, rc1)"
    by (cases "fold (firstPassStep g a) [0..<?n] (replicate ?n Absent, Map.empty)")
  obtain r2 rc2 where p2: "fold (secondPassStep g) [0..<?n] (r1, rc1) = (r2, rc2)"
    by (cases "fold (secondPassStep g) [0..<?n] (r1, rc1)")
  have res: "scoreWordleGuess g a = r2" by (simp add: scoreWordleGuess_def Let_def p1 p2)
  from firstPass_inv[OF le_refl p1] have
    r1: "r1 = map (\<lambda>i. if i < ?n \<and> jsIndex g i = Some (a ! i) then Correct else Absent) [0..<?n]"
    and c1: "cnt rc1 L = length (filter (\<lambda>i. a ! i = L \<and> jsIndex g i \<noteq> Some (a ! i)) [0..<?n])"
    by auto
  have len1: "length r1 = ?n" and noP: "Present \<notin> set r1" using r1 by auto
  from secondPass_inv[of ?n r1 g rc1 r2 rc2] len1 noP p2 have
    corr: "\<And>i. i < ?n \<Longrightarrow> (r2 ! i = Correct) = (r1 ! i = Correct)"
    and pres: "length (filter (\<lambda>i. jsIndex g i = Some L \<and> r2 ! i = Present) [0..<?n]) + cnt rc2 L = cnt rc1 L"
    by auto
  have r1c: "\<And>i. i < ?n \<Longrightarrow> (r1 ! i = Correct) = (jsIndex g i = Some (a ! i))" using r1 by simp
  have A: "filter (\<lambda>i. jsIndex g i = Some L \<and> r2 ! i \<noteq> Absent \<and> r2 ! i = Correct) [0..<?n]
         = filter (\<lambda>i. a ! i = L \<and> jsIndex g i = Some (a ! i)) [0..<?n]"
  proof (rule filter_cong)
    fix i assume "i \<in> set [0..<?n]"
    then have i: "i < ?n" by simp
    have "(r2 ! i = Correct) = (jsIndex g i = Some (a ! i))" using corr[OF i] r1c[OF i] by simp
    then show "(jsIndex g i = Some L \<and> r2 ! i \<noteq> Absent \<and> r2 ! i = Correct)
             = (a ! i = L \<and> jsIndex g i = Some (a ! i))"
      by auto
  qed simp
  have B: "filter (\<lambda>i. jsIndex g i = Some L \<and> r2 ! i \<noteq> Absent \<and> r2 ! i \<noteq> Correct) [0..<?n]
         = filter (\<lambda>i. jsIndex g i = Some L \<and> r2 ! i = Present) [0..<?n]"
    by (rule filter_cong) (auto intro: Score.exhaust)
  have "length (filter (\<lambda>i. jsIndex g i = Some L \<and> r2 ! i \<noteq> Absent) [0..<?n])
      = length (filter (\<lambda>i. (jsIndex g i = Some L \<and> r2 ! i \<noteq> Absent) \<and> r2 ! i = Correct) [0..<?n])
      + length (filter (\<lambda>i. (jsIndex g i = Some L \<and> r2 ! i \<noteq> Absent) \<and> r2 ! i \<noteq> Correct) [0..<?n])"
    by (rule filter_split_len[symmetric])
  also have "\<dots> = length (filter (\<lambda>i. a ! i = L \<and> jsIndex g i = Some (a ! i)) [0..<?n])
      + length (filter (\<lambda>i. jsIndex g i = Some L \<and> r2 ! i = Present) [0..<?n])"
    using A B by (simp add: conj_assoc)
  also have "\<dots> \<le> length (filter (\<lambda>i. a ! i = L \<and> jsIndex g i = Some (a ! i)) [0..<?n]) + cnt rc1 L"
    using pres by simp
  also have "\<dots> = length (filter (\<lambda>i. a ! i = L) [0..<?n])"
    unfolding c1 by (rule filter_split_len)
  also have "\<dots> = count_list a L" by (rule count_list_index[symmetric])
  finally show ?thesis by (simp add: res)
qed

lemma length_scoreWordleGuess: "length (scoreWordleGuess g a) = length a"
proof -
  let ?n = "length a"
  obtain r1 rc1 where p1: "fold (firstPassStep g a) [0..<?n] (replicate ?n Absent, Map.empty) = (r1, rc1)"
    by (cases "fold (firstPassStep g a) [0..<?n] (replicate ?n Absent, Map.empty)")
  obtain r2 rc2 where p2: "fold (secondPassStep g) [0..<?n] (r1, rc1) = (r2, rc2)"
    by (cases "fold (secondPassStep g) [0..<?n] (r1, rc1)")
  have res: "scoreWordleGuess g a = r2" by (simp add: scoreWordleGuess_def Let_def p1 p2)
  from firstPass_inv[OF le_refl p1] have len1: "length r1 = ?n" and noP: "Present \<notin> set r1" by auto
  from secondPass_inv[of ?n r1 g rc1 r2 rc2] len1 noP p2 show ?thesis by (simp add: res)
qed


lemma secondPass_undefined:
  "fold (secondPassStep g) [0..<k] (r1, rc1) = (r, rc) \<Longrightarrow> jsIndex g i = None \<Longrightarrow> r ! i = r1 ! i"
proof (induction k arbitrary: r rc)
  case 0
  then show ?case by simp
next
  case (Suc k)
  obtain r0 rc0 where f: "fold (secondPassStep g) [0..<k] (r1, rc1) = (r0, rc0)"
    by (cases "fold (secondPassStep g) [0..<k] (r1, rc1)")
  from Suc.prems(1) f have step: "secondPassStep g k (r0, rc0) = (r, rc)" by simp
  have "r ! i = r0 ! i"
    using step Suc.prems(2)
    by (cases "i = k") (auto simp: secondPassStep_def split: if_splits option.splits)
  with Suc.IH[OF f Suc.prems(2)] show ?case by simp
qed

lemma score_beyond_guess:
  assumes "length g \<le> i" "i < length a"
  shows "scoreWordleGuess g a ! i = Absent"
proof -
  let ?n = "length a"
  obtain r1 rc1 where p1: "fold (firstPassStep g a) [0..<?n] (replicate ?n Absent, Map.empty) = (r1, rc1)"
    by (cases "fold (firstPassStep g a) [0..<?n] (replicate ?n Absent, Map.empty)")
  obtain r2 rc2 where p2: "fold (secondPassStep g) [0..<?n] (r1, rc1) = (r2, rc2)"
    by (cases "fold (secondPassStep g) [0..<?n] (r1, rc1)")
  have res: "scoreWordleGuess g a = r2" by (simp add: scoreWordleGuess_def Let_def p1 p2)
  have none: "jsIndex g i = None" using assms by (simp add: jsIndex_def)
  from firstPass_inv[OF le_refl p1] assms none have "r1 ! i = Absent" by simp
  with secondPass_undefined[OF p2 none] show ?thesis by (simp add: res)
qed

lemma score_correct_iff:
  assumes "i < length a"
  shows "(scoreWordleGuess g a ! i = Correct) = (jsIndex g i = Some (a ! i))"
proof -
  let ?n = "length a"
  obtain r1 rc1 where p1: "fold (firstPassStep g a) [0..<?n] (replicate ?n Absent, Map.empty) = (r1, rc1)"
    by (cases "fold (firstPassStep g a) [0..<?n] (replicate ?n Absent, Map.empty)")
  obtain r2 rc2 where p2: "fold (secondPassStep g) [0..<?n] (r1, rc1) = (r2, rc2)"
    by (cases "fold (secondPassStep g) [0..<?n] (r1, rc1)")
  have res: "scoreWordleGuess g a = r2" by (simp add: scoreWordleGuess_def Let_def p1 p2)
  from firstPass_inv[OF le_refl p1] have
    r1: "r1 = map (\<lambda>i. if i < ?n \<and> jsIndex g i = Some (a ! i) then Correct else Absent) [0..<?n]"
    by auto
  have len1: "length r1 = ?n" and noP: "Present \<notin> set r1" using r1 by auto
  from secondPass_inv[of ?n r1 g rc1 r2 rc2] len1 noP p2 assms
  have "(r2 ! i = Correct) = (r1 ! i = Correct)" by auto
  also have "\<dots> = (jsIndex g i = Some (a ! i))" using r1 assms by simp
  finally show ?thesis by (simp add: res)
qed
section \<open>Claims about the scoring engine\<close>

text \<open>
  C1 (multiset conservation). For a guess and an answer of equal length and any letter
  \<open>L\<close>, the number of positions where the guess has \<open>L\<close> and the feedback row of
  \<open>scoreWordleGuess\<close> is correct or present (that is, not absent) is at most the number
  of occurrences of \<open>L\<close> in the answer.
\<close>

theorem scoreWordleGuess_multiset_conservation:
  "length guess = length answer \<Longrightarrow>
   length (filter (\<lambda>i. guess ! i = L \<and> scoreWordleGuess guess answer ! i \<noteq> Absent)
             [0..<length guess])
     \<le> count_list answer L"
proof -
  assume eq: "length guess = length answer"
  have "filter (\<lambda>i. guess ! i = L \<and> scoreWordleGuess guess answer ! i \<noteq> Absent) [0..<length guess]
      = filter (\<lambda>i. jsIndex guess i = Some L \<and> scoreWordleGuess guess answer ! i \<noteq> Absent)
          [0..<length answer]"
    unfolding eq by (rule filter_cong) (auto simp: jsIndex_def eq)
  then show ?thesis using score_conservation_index[of guess L answer] by simp
qed

theorem scoreWordleGuess_multiset_conservation_witness:
  "length ''EERIE'' = length ''THERE'' \<and>
   length (filter (\<lambda>i. ''EERIE'' ! i = CHR ''E'' \<and> scoreWordleGuess ''EERIE'' ''THERE'' ! i \<noteq> Absent)
             [0..<length ''EERIE''])
     \<le> count_list ''THERE'' CHR ''E''"
  using scoreWordleGuess_multiset_conservation [of "''EERIE''" "''THERE''" "CHR ''E''"]
  by simp

text \<open>
  C10 (totality outside the equal-length precondition). For every pair of strings the
  feedback row has the answer's length, and the entries from the guess's length onwards
  are all absent (there are none when the guess is at least as long as the answer).
\<close>

theorem scoreWordleGuess_total_shape:
  "length (scoreWordleGuess guess answer) = length answer \<and>
   drop (length guess) (scoreWordleGuess guess answer)
     = replicate (length answer - length guess) Absent"
proof
  show len: "length (scoreWordleGuess guess answer) = length answer"
    by (rule length_scoreWordleGuess)
  show "drop (length guess) (scoreWordleGuess guess answer)
          = replicate (length answer - length guess) Absent"
  proof (rule nth_equalityI)
    show "length (drop (length guess) (scoreWordleGuess guess answer))
            = length (replicate (length answer - length guess) Absent)"
      by (simp add: len)
  next
    fix i assume "i < length (drop (length guess) (scoreWordleGuess guess answer))"
    then have i: "length guess + i < length answer" by (simp add: len)
    then have "scoreWordleGuess guess answer ! (length guess + i) = Absent"
      by (intro score_beyond_guess) simp_all
    with i show "drop (length guess) (scoreWordleGuess guess answer) ! i
                   = replicate (length answer - length guess) Absent ! i"
      by (simp add: len)
  qed
qed

section \<open>Keyboard hints: every step only raises a letter's rank\<close>

lemma hintsLe_refl: "hintsLe s s"
  by (simp add: hintsLe_def)

lemma hintsLe_trans: "hintsLe s t \<Longrightarrow> hintsLe t u \<Longrightarrow> hintsLe s u"
  unfolding hintsLe_def by (meson order_trans)

lemma hintRank_le_3: "hintRank v \<le> 3"
  by (cases v rule: hintRank.cases) simp_all

lemma hintRank_ge_3: "(3 \<le> hintRank v) = (v = Some Correct)"
  by (cases v rule: hintRank.cases) simp_all

lemma hintRank_ge_2: "(2 \<le> hintRank v) = (v = Some Correct \<or> v = Some Present)"
  by (cases v rule: hintRank.cases) simp_all

lemma hintRank_0: "(hintRank v = 0) = (v = None)"
  by (cases v rule: hintRank.cases) simp_all

lemma letterCell_mono:
  assumes "hintsLe s t"
  shows "hintsLe (letterCell letter status s) (letterCell letter status t)"
  unfolding hintsLe_def
proof
  fix L
  from assms have le: "hintRank (s L) \<le> hintRank (t L)" and lel: "hintRank (s letter) \<le> hintRank (t letter)"
    by (simp_all add: hintsLe_def)
  show "hintRank (letterCell letter status s L) \<le> hintRank (letterCell letter status t L)"
  proof (cases status)
    case Correct
    then show ?thesis using le by (simp add: letterCell_def)
  next
    case Present
    have "s letter = Some Correct \<Longrightarrow> t letter = Some Correct"
      using lel hintRank_ge_3[of "t letter"] by simp
    then show ?thesis using Present le hintRank_ge_2[of "t L"]
      by (auto simp: letterCell_def)
  next
    case Absent
    have "t letter = None \<Longrightarrow> s letter = None"
      using lel hintRank_0[of "s letter"] by simp
    moreover have "1 \<le> hintRank (t L)" if "t L \<noteq> None"
      using that by (cases "t L" rule: hintRank.cases) simp_all
    ultimately show ?thesis using Absent le
      by (auto simp: letterCell_def)
  qed
qed

lemma letterCell_raises: "hintsLe s (letterCell letter status s)"
  unfolding hintsLe_def
proof
  fix L
  show "hintRank (s L) \<le> hintRank (letterCell letter status s L)"
    using hintRank_le_3[of "s L"] hintRank_ge_3[of "s L"]
    by (cases status; cases "s L" rule: hintRank.cases) (auto simp: letterCell_def)
qed

lemma fold_hintsLe:
  assumes "\<And>i s t. i \<in> set js \<Longrightarrow> hintsLe s t \<Longrightarrow> hintsLe (f i s) (h i t)"
    and "hintsLe s t"
  shows "hintsLe (fold f js s) (fold h js t)"
  using assms by (induction js arbitrary: s t) simp_all

lemma letterRow_mono: "hintsLe s t \<Longrightarrow> hintsLe (letterRow guess row s) (letterRow guess row t)"
  unfolding letterRow_def
  by (rule fold_hintsLe) (auto split: option.splits intro: letterCell_mono)

lemma letterRow_raises: "hintsLe s (letterRow guess row s)"
proof -
  have "hintsLe s (fold (\<lambda>i st. case (jsIndex guess i, jsIndex row i) of
                     (Some letter, Some status) \<Rightarrow> letterCell letter status st
                   | _ \<Rightarrow> st) js s)" for js
  proof (induction js arbitrary: s)
    case Nil
    then show ?case by (simp add: hintsLe_refl)
  next
    case (Cons j js)
    have "hintsLe s (case (jsIndex guess j, jsIndex row j) of
                     (Some letter, Some status) \<Rightarrow> letterCell letter status s
                   | _ \<Rightarrow> s)"
      by (auto split: option.splits intro: hintsLe_refl letterCell_raises)
    then show ?case using Cons.IH hintsLe_trans by fastforce
  qed
  then show ?thesis by (simp add: letterRow_def)
qed

lemma letterRow_no_row: "letterRow guess [] s = s"
proof -
  have "fold (\<lambda>i st. st) js s = s" for js :: "nat list"
    by (induction js) simp_all
  moreover have "(\<lambda>i st. case (jsIndex guess i, jsIndex ([] :: Score list) i) of
                     (Some letter, Some status) \<Rightarrow> letterCell letter status st
                   | _ \<Rightarrow> st) = (\<lambda>i st. st)"
    by (auto simp: fun_eq_iff jsIndex_def split: option.splits)
  ultimately show ?thesis by (simp add: letterRow_def)
qed

lemma wordleLetterStates_append:
  "hintsLe (wordleLetterStates guesses results)
           (wordleLetterStates (guesses @ [guess]) (results @ [row]))"
proof -
  let ?row = "\<lambda>rs i. case jsIndex rs i of None \<Rightarrow> [] | Some r \<Rightarrow> r"
  let ?f = "\<lambda>i st. letterRow (guesses ! i) (?row results i) st"
  let ?h = "\<lambda>i st. letterRow ((guesses @ [guess]) ! i) (?row (results @ [row]) i) st"
  let ?n = "length guesses"
  have prefix: "hintsLe (fold ?f [0..<?n] Map.empty) (fold ?h [0..<?n] Map.empty)"
  proof (rule fold_hintsLe)
    fix i and s t :: "'a \<rightharpoonup> Score"
    assume "i \<in> set [0..<?n]" and le: "hintsLe s t"
    then have i: "i < ?n" by simp
    then have g: "(guesses @ [guess]) ! i = guesses ! i" by (simp add: nth_append)
    show "hintsLe (?f i s) (?h i t)"
    proof (cases "i < length results")
      case True
      then have "?row (results @ [row]) i = ?row results i"
        by (simp add: jsIndex_def nth_append)
      then show ?thesis using g le by (simp add: letterRow_mono)
    next
      case False
      then have "?f i s = s" by (simp add: jsIndex_def letterRow_no_row)
      then show ?thesis using le letterRow_raises hintsLe_trans by metis
    qed
  qed (rule hintsLe_refl)
  have "wordleLetterStates (guesses @ [guess]) (results @ [row])
          = ?h ?n (fold ?h [0..<?n] Map.empty)"
    by (simp add: wordleLetterStates_def)
  moreover have "hintsLe (fold ?h [0..<?n] Map.empty) (?h ?n (fold ?h [0..<?n] Map.empty))"
    by (rule letterRow_raises)
  ultimately show ?thesis
    using prefix hintsLe_trans by (simp add: wordleLetterStates_def) blast
qed

text \<open>
  C9 (monotone keyboard hints). Appending one more guess and feedback row never lowers
  the aggregated hint of any letter in the order none < absent < present < correct: a
  letter that is correct stays correct, and a letter that is present does not become
  absent.
\<close>

theorem wordleLetterStates_monotone:
  "hintRank (wordleLetterStates guesses results L)
     \<le> hintRank (wordleLetterStates (guesses @ [guess]) (results @ [row]) L)
   \<and> (wordleLetterStates guesses results L = Some Correct \<longrightarrow>
        wordleLetterStates (guesses @ [guess]) (results @ [row]) L = Some Correct)
   \<and> (wordleLetterStates guesses results L = Some Present \<longrightarrow>
        wordleLetterStates (guesses @ [guess]) (results @ [row]) L \<noteq> Some Absent
        \<and> wordleLetterStates (guesses @ [guess]) (results @ [row]) L \<noteq> None)"
proof -
  let ?old = "wordleLetterStates guesses results L"
  let ?new = "wordleLetterStates (guesses @ [guess]) (results @ [row]) L"
  have le: "hintRank ?old \<le> hintRank ?new"
    using wordleLetterStates_append[of guesses results guess row] by (simp add: hintsLe_def)
  moreover have "?new = Some Correct" if "?old = Some Correct"
    using le that hintRank_ge_3[of ?new] by simp
  moreover have "?new \<noteq> Some Absent \<and> ?new \<noteq> None" if "?old = Some Present"
    using le that hintRank_ge_2[of ?new] by auto
  ultimately show ?thesis by blast
qed

theorem wordleLetterStates_monotone_witness:
  "wordleLetterStates [''AB''] [[Correct, Present]] CHR ''A'' = Some Correct
   \<and> wordleLetterStates ([''AB''] @ [''BA'']) ([[Correct, Present]] @ [[Absent, Absent]]) CHR ''A''
       = Some Correct
   \<and> wordleLetterStates [''AB''] [[Correct, Present]] CHR ''B'' = Some Present
   \<and> wordleLetterStates ([''AB''] @ [''BA'']) ([[Correct, Present]] @ [[Absent, Absent]]) CHR ''B''
       \<noteq> Some Absent"
proof -
  have a: "wordleLetterStates [''AB''] [[Correct, Present]] CHR ''A'' = Some Correct"
    by (simp add: wordleLetterStates_def letterRow_def letterCell_def jsIndex_def)
  have b: "wordleLetterStates [''AB''] [[Correct, Present]] CHR ''B'' = Some Present"
    by (simp add: wordleLetterStates_def letterRow_def letterCell_def jsIndex_def)
  from a b
    wordleLetterStates_monotone [of "[''AB'']" "[[Correct, Present]]" "CHR ''A''" "''BA''" "[Absent, Absent]"]
    wordleLetterStates_monotone [of "[''AB'']" "[[Correct, Present]]" "CHR ''B''" "''BA''" "[Absent, Absent]"]
  show ?thesis by simp
qed

section \<open>Sessions: terminal states, Quordle win flags, Bee membership\<close>

text \<open>
  C4 (terminal idempotence). In each of the three sessions the terminal states Won and
  Lost are the states whose done flag is set. A submit in such a state is rejected and
  returns the state as it was: guess log, feedback history, win or solved flags and the
  number of guesses are all unchanged.
\<close>

theorem terminal_submit_rejected:
  "(wordleDone w \<longrightarrow>
      (\<exists>r. fst (handleWordleSubmit wordSet w raw) = Rejected r)
      \<and> snd (handleWordleSubmit wordSet w raw) = w)
   \<and> (quordleDone q \<longrightarrow>
      (\<exists>r. fst (handleQuordleSubmit wordSet q raw) = Rejected r)
      \<and> snd (handleQuordleSubmit wordSet q raw) = q)
   \<and> (streakleDone t \<longrightarrow>
      (\<exists>r. fst (handleStreakleSubmit wordSet t raw) = Rejected r)
      \<and> snd (handleStreakleSubmit wordSet t raw) = t)"
proof (intro conjI impI)
  assume "wordleDone w"
  then show "\<exists>r. fst (handleWordleSubmit wordSet w raw) = Rejected r"
    and "snd (handleWordleSubmit wordSet w raw) = w"
    by (simp_all add: handleWordleSubmit_def split: option.splits)
next
  assume "quordleDone q"
  then show "\<exists>r. fst (handleQuordleSubmit wordSet q raw) = Rejected r"
    and "snd (handleQuordleSubmit wordSet q raw) = q"
    by (simp_all add: handleQuordleSubmit_def split: option.splits)
next
  assume "streakleDone t"
  then show "\<exists>r. fst (handleStreakleSubmit wordSet t raw) = Rejected r"
    and "snd (handleStreakleSubmit wordSet t raw) = t"
    by (simp_all add: handleStreakleSubmit_def split: option.splits)
qed

theorem terminal_submit_rejected_witness:
  "wordleDone (wordleRun (Some {''CRANE'', ''SLATE''}) (startNewWordleGame ''CRANE'')
       [''SLATE'', ''SLATE'', ''SLATE'', ''SLATE'', ''SLATE'', ''SLATE''])
   \<and> snd (handleWordleSubmit (Some {''CRANE'', ''SLATE''})
        (wordleRun (Some {''CRANE'', ''SLATE''}) (startNewWordleGame ''CRANE'')
           [''SLATE'', ''SLATE'', ''SLATE'', ''SLATE'', ''SLATE'', ''SLATE''])
        ''CRANE'')
     = wordleRun (Some {''CRANE'', ''SLATE''}) (startNewWordleGame ''CRANE'')
         [''SLATE'', ''SLATE'', ''SLATE'', ''SLATE'', ''SLATE'', ''SLATE'']
   \<and> quordleDone (quordleRun (Some {''AAAAA'', ''BBBBB'', ''CCCCC'', ''DDDDD''})
        (startNewQuordleGame [''AAAAA'', ''BBBBB'', ''CCCCC'', ''DDDDD''])
        [''AAAAA'', ''BBBBB'', ''CCCCC'', ''DDDDD''])
   \<and> snd (handleQuordleSubmit (Some {''AAAAA'', ''BBBBB'', ''CCCCC'', ''DDDDD''})
        (quordleRun (Some {''AAAAA'', ''BBBBB'', ''CCCCC'', ''DDDDD''})
           (startNewQuordleGame [''AAAAA'', ''BBBBB'', ''CCCCC'', ''DDDDD''])
           [''AAAAA'', ''BBBBB'', ''CCCCC'', ''DDDDD''])
        ''AAAAA'')
     = quordleRun (Some {''AAAAA'', ''BBBBB'', ''CCCCC'', ''DDDDD''})
         (startNewQuordleGame [''AAAAA'', ''BBBBB'', ''CCCCC'', ''DDDDD''])
         [''AAAAA'', ''BBBBB'', ''CCCCC'', ''DDDDD'']
   \<and> streakleDone (streakleRun (Some {''AAAAA'', ''BBBBB'', ''CCCCC'', ''DDDDD''})
        (startNewStreakleGame ''DDDDD'' [''AAAAA'', ''BBBBB'', ''CCCCC''])
        [''AAAAA'', ''BBBBB'', ''CCCCC''])
   \<and> snd (handleStreakleSubmit (Some {''AAAAA'', ''BBBBB'', ''CCCCC'', ''DDDDD''})
        (streakleRun (Some {''AAAAA'', ''BBBBB'', ''CCCCC'', ''DDDDD''})
           (startNewStreakleGame ''DDDDD'' [''AAAAA'', ''BBBBB'', ''CCCCC''])
           [''AAAAA'', ''BBBBB'', ''CCCCC''])
        ''DDDDD'')
     = streakleRun (Some {''AAAAA'', ''BBBBB'', ''CCCCC'', ''DDDDD''})
         (startNewStreakleGame ''DDDDD'' [''AAAAA'', ''BBBBB'', ''CCCCC''])
         [''AAAAA'', ''BBBBB'', ''CCCCC'']"
proof -
  let ?w = "wordleRun (Some {''CRANE'', ''SLATE''}) (startNewWordleGame ''CRANE'')
       [''SLATE'', ''SLATE'', ''SLATE'', ''SLATE'', ''SLATE'', ''SLATE'']"
  let ?ws = "Some {''AAAAA'', ''BBBBB'', ''CCCCC'', ''DDDDD''}"
  let ?q = "quordleRun ?ws (startNewQuordleGame [''AAAAA'', ''BBBBB'', ''CCCCC'', ''DDDDD''])
        [''AAAAA'', ''BBBBB'', ''CCCCC'', ''DDDDD'']"
  let ?t = "streakleRun ?ws (startNewStreakleGame ''DDDDD'' [''AAAAA'', ''BBBBB'', ''CCCCC''])
        [''AAAAA'', ''BBBBB'', ''CCCCC'']"
  have w: "wordleDone ?w" by code_simp
  have q: "quordleDone ?q" by code_simp
  have t: "streakleDone ?t" by code_simp
  from w q t
    terminal_submit_rejected [of ?w "Some {''CRANE'', ''SLATE''}" "''CRANE''" ?q ?t]
    terminal_submit_rejected [of ?w ?ws "''AAAAA''" ?q ?t]
    terminal_submit_rejected [of ?w ?ws "''DDDDD''" ?q ?t]
  show ?thesis by blast
qed

lemma quordleBoardStep_wins:
  assumes "quordleBoardStep raw answers b (res, wins) = (res', wins')" "b < length wins"
  shows "length wins' = length wins"
    and "wins' ! b = (wins ! b \<or> raw = answers ! b)"
    and "\<And>c. c \<noteq> b \<Longrightarrow> wins' ! c = wins ! c"
  using assms by (auto simp: quordleBoardStep_def Let_def split: if_splits)

lemma quordle_loop_wins:
  assumes "fold (quordleBoardStep raw answers) [0..<k] (res, wins) = (res', wins')"
    "k \<le> length wins"
  shows "length wins' = length wins \<and>
         (\<forall>b<length wins. wins' ! b = (wins ! b \<or> (b < k \<and> raw = answers ! b)))"
  using assms
proof (induction k arbitrary: res' wins')
  case 0
  then show ?case by simp
next
  case (Suc k)
  obtain r0 w0 where f: "fold (quordleBoardStep raw answers) [0..<k] (res, wins) = (r0, w0)"
    by (cases "fold (quordleBoardStep raw answers) [0..<k] (res, wins)")
  from Suc.IH[OF f] Suc.prems(2) have
    len: "length w0 = length wins"
    and old: "\<And>b. b < length wins \<Longrightarrow> w0 ! b = (wins ! b \<or> (b < k \<and> raw = answers ! b))"
    by auto
  from Suc.prems(1) f have step: "quordleBoardStep raw answers k (r0, w0) = (res', wins')" by simp
  have k: "k < length w0" using Suc.prems(2) len by simp
  note s = quordleBoardStep_wins[OF step k]
  have "wins' ! b = (wins ! b \<or> (b < Suc k \<and> raw = answers ! b))" if "b < length wins" for b
  proof (cases "b = k")
    case True
    then show ?thesis using s(2) old[OF that] by auto
  next
    case False
    then show ?thesis using s(3)[of b] old[OF that] by (auto simp: less_Suc_eq)
  qed
  then show ?case using s(1) len by simp
qed

lemma handleQuordleSubmit_wins:
  assumes "length (quordleWins s) = 4" "handleQuordleSubmit wordSet s raw = (out, s')"
  shows "length (quordleWins s') = 4"
    and "quordleAnswers s' = quordleAnswers s"
    and "out \<noteq> Accepted \<Longrightarrow> quordleWins s' = quordleWins s"
    and "\<And>b answers. out = Accepted \<Longrightarrow> b < 4 \<Longrightarrow> quordleAnswers s = Some answers \<Longrightarrow>
           quordleWins s' ! b = (quordleWins s ! b \<or> raw = answers ! b)"
proof -
  show "out \<noteq> Accepted \<Longrightarrow> quordleWins s' = quordleWins s"
    using assms(2)
    by (auto simp: handleQuordleSubmit_def Let_def split: option.splits if_splits prod.splits)
  show "quordleAnswers s' = quordleAnswers s"
    using assms(2)
    by (auto simp: handleQuordleSubmit_def Let_def split: option.splits if_splits prod.splits)
  have acc: "length (quordleWins s') = 4 \<and>
             (\<forall>b<4. quordleWins s' ! b = (quordleWins s ! b \<or> raw = answers ! b))"
    if "out = Accepted" "quordleAnswers s = Some answers" for answers
  proof -
    let ?copied = "if length (quordleResults s) = 4 then quordleResults s else replicate 4 []"
    obtain nr nw where f:
      "fold (quordleBoardStep raw answers) [0..<4] (?copied, quordleWins s) = (nr, nw)"
      by (cases "fold (quordleBoardStep raw answers) [0..<4] (?copied, quordleWins s)")
    from that assms(2) have "quordleWins s' = nw"
      using f by (auto simp: handleQuordleSubmit_def Let_def split: if_splits)
    moreover from quordle_loop_wins[OF f] assms(1)
    have "length nw = 4 \<and> (\<forall>b<4. nw ! b = (quordleWins s ! b \<or> raw = answers ! b))"
      by simp
    ultimately show ?thesis by simp
  qed
  then show "\<And>b answers. out = Accepted \<Longrightarrow> b < 4 \<Longrightarrow> quordleAnswers s = Some answers \<Longrightarrow>
           quordleWins s' ! b = (quordleWins s ! b \<or> raw = answers ! b)"
    by blast
  show "length (quordleWins s') = 4"
  proof (cases "out = Accepted")
    case True
    then obtain answers where "quordleAnswers s = Some answers"
      using assms(2) by (auto simp: handleQuordleSubmit_def split: option.splits)
    with acc True show ?thesis by blast
  next
    case False
    then have "quordleWins s' = quordleWins s"
      using assms(2)
      by (auto simp: handleQuordleSubmit_def Let_def split: option.splits if_splits prod.splits)
    with assms(1) show ?thesis by simp
  qed
qed

lemma quordleRun_snoc:
  "quordleRun wordSet s (raws @ [raw]) = snd (handleQuordleSubmit wordSet (quordleRun wordSet s raws) raw)"
  by (simp add: quordleRun_def)

lemma quordleRun_shape:
  assumes "length (quordleWins s) = 4"
  shows "length (quordleWins (quordleRun wordSet s raws)) = 4
         \<and> quordleAnswers (quordleRun wordSet s raws) = quordleAnswers s"
proof (induction raws rule: rev_induct)
  case Nil
  then show ?case using assms by (simp add: quordleRun_def)
next
  case (snoc raw raws)
  let ?s = "quordleRun wordSet s raws"
  obtain out s' where h: "handleQuordleSubmit wordSet ?s raw = (out, s')"
    by (cases "handleQuordleSubmit wordSet ?s raw")
  from snoc have "length (quordleWins ?s) = 4" by simp
  from handleQuordleSubmit_wins(1,2)[OF this h] snoc h show ?case
    by (simp add: quordleRun_snoc)
qed

lemma quordleRun_sticky:
  assumes "length (quordleWins s) = 4" "b < 4" "quordleWins s ! b"
  shows "quordleWins (quordleRun wordSet s raws) ! b"
proof (induction raws rule: rev_induct)
  case Nil
  then show ?case using assms by (simp add: quordleRun_def)
next
  case (snoc raw raws)
  let ?s = "quordleRun wordSet s raws"
  obtain out s' where h: "handleQuordleSubmit wordSet ?s raw = (out, s')"
    by (cases "handleQuordleSubmit wordSet ?s raw")
  have len: "length (quordleWins ?s) = 4" using quordleRun_shape[OF assms(1)] by simp
  have "quordleWins s' ! b"
  proof (cases "out = Accepted")
    case True
    then obtain answers where "quordleAnswers ?s = Some answers"
      using h by (auto simp: handleQuordleSubmit_def split: option.splits)
    from handleQuordleSubmit_wins(4)[OF len h True assms(2) this] snoc show ?thesis by simp
  next
    case False
    from handleQuordleSubmit_wins(3)[OF len h False] snoc show ?thesis by simp
  qed
  then show ?case using h by (simp add: quordleRun_snoc)
qed

text \<open>
  C3 (Quordle win flags). In any state reached from a new game with four answers by any
  sequence of submits: an accepted guess equal to a board's answer sets that board's win
  flag; an accepted guess different from a board's answer leaves that board's flag as it
  was; and a flag that is set stays set through every later sequence of submits.
\<close>

theorem quordle_win_flags:
  assumes "length answers = 4" and "b < 4"
    and "s = quordleRun wordSet (startNewQuordleGame answers) raws"
    and "handleQuordleSubmit wordSet s raw = (out, s')"
  shows "(out = Accepted \<and> raw = answers ! b \<longrightarrow> quordleWins s' ! b)
       \<and> (out = Accepted \<and> raw \<noteq> answers ! b \<longrightarrow> quordleWins s' ! b = quordleWins s ! b)
       \<and> (quordleWins s ! b \<longrightarrow> quordleWins (quordleRun wordSet s later) ! b)"
proof -
  have init: "length (quordleWins (startNewQuordleGame answers)) = 4"
    by (simp add: startNewQuordleGame_def)
  from quordleRun_shape[OF init, of wordSet raws] assms(3)
  have len: "length (quordleWins s) = 4" and ans: "quordleAnswers s = Some answers"
    by (simp_all add: startNewQuordleGame_def)
  have step: "quordleWins s' ! b = (quordleWins s ! b \<or> raw = answers ! b)" if "out = Accepted"
    using handleQuordleSubmit_wins(4)[OF len assms(4) that assms(2) ans] .
  have sticky: "quordleWins (quordleRun wordSet s later) ! b" if "quordleWins s ! b"
    using quordleRun_sticky[OF len assms(2) that] .
  from step sticky show ?thesis by blast
qed

theorem quordle_win_flags_witness:
  "handleQuordleSubmit (Some {''AAAAA'', ''EEEEE''})
      (quordleRun (Some {''AAAAA'', ''EEEEE''})
         (startNewQuordleGame [''AAAAA'', ''BBBBB'', ''CCCCC'', ''DDDDD'']) [''EEEEE''])
      ''AAAAA''
    = (Accepted,
       \<lparr>quordleAnswers = Some [''AAAAA'', ''BBBBB'', ''CCCCC'', ''DDDDD''],
        quordleGuesses = [''EEEEE'', ''AAAAA''],
        quordleResults =
          [[replicate 5 Absent, replicate 5 Correct], [replicate 5 Absent, replicate 5 Absent],
           [replicate 5 Absent, replicate 5 Absent], [replicate 5 Absent, replicate 5 Absent]],
        quordleDone = False,
        quordleWins = [True, False, False, False]\<rparr>)
   \<and> quordleWins \<lparr>quordleAnswers = Some [''AAAAA'', ''BBBBB'', ''CCCCC'', ''DDDDD''],
        quordleGuesses = [''EEEEE'', ''AAAAA''],
        quordleResults =
          [[replicate 5 Absent, replicate 5 Correct], [replicate 5 Absent, replicate 5 Absent],
           [replicate 5 Absent, replicate 5 Absent], [replicate 5 Absent, replicate 5 Absent]],
        quordleDone = False,
        quordleWins = [True, False, False, False]\<rparr> ! 0"
proof -
  let ?ws = "Some {''AAAAA'', ''EEEEE''}"
  let ?answers = "[''AAAAA'', ''BBBBB'', ''CCCCC'', ''DDDDD'']"
  let ?s = "quordleRun ?ws (startNewQuordleGame ?answers) [''EEEEE'']"
  let ?s' = "\<lparr>quordleAnswers = Some ?answers,
        quordleGuesses = [''EEEEE'', ''AAAAA''],
        quordleResults =
          [[replicate 5 Absent, replicate 5 Correct], [replicate 5 Absent, replicate 5 Absent],
           [replicate 5 Absent, replicate 5 Absent], [replicate 5 Absent, replicate 5 Absent]],
        quordleDone = False,
        quordleWins = [True, False, False, False]\<rparr>"
  have h: "handleQuordleSubmit ?ws ?s ''AAAAA'' = (Accepted, ?s')"
    by code_simp
  have l: "length ?answers = 4" and b: "(0::nat) < 4" by simp_all
  from quordle_win_flags [OF l b refl h, of "[]"] h show ?thesis by simp
qed

text \<open>
  C8 (Bee membership). With a hive on the board, a submitted word that lacks the center
  letter, or that has a letter outside the hive, is rejected and the state (the found
  words in particular) is returned unchanged, whatever the valid-word list contains.
\<close>

theorem bee_submit_outside_hive_rejected:
  assumes "beeLetters s = Some hive" and "beeCenterLetter s = Some centerLetter"
    and "centerLetter \<notin> set raw \<or> \<not> set raw \<subseteq> set hive"
  shows "(\<exists>r. fst (handleBeeSubmit s raw) = Rejected r)
       \<and> snd (handleBeeSubmit s raw) = s
       \<and> beeFoundWords (snd (handleBeeSubmit s raw)) = beeFoundWords s"
proof -
  have "list_ex (\<lambda>ch. ch \<notin> set hive) raw" if "\<not> set raw \<subseteq> set hive"
    using that by (auto simp: list_ex_iff)
  with assms show ?thesis
    by (auto simp: handleBeeSubmit_def)
qed

theorem bee_submit_outside_hive_rejected_witness:
  "fst (handleBeeSubmit
      \<lparr>beeLetters = Some ''ABCDEFG'', beeCenterLetter = Some CHR ''A'', beeDictLoading = False,
       beeValidWords = [''BCDE'', ''ABCX'', ''ABCD''], beePangrams = [], beeFoundWords = [''ABCD'']\<rparr>
      ''BCDE'') = Rejected MissingCenter
   \<and> fst (handleBeeSubmit
      \<lparr>beeLetters = Some ''ABCDEFG'', beeCenterLetter = Some CHR ''A'', beeDictLoading = False,
       beeValidWords = [''BCDE'', ''ABCX'', ''ABCD''], beePangrams = [], beeFoundWords = [''ABCD'']\<rparr>
      ''ABCX'') = Rejected OutsideHive
   \<and> beeFoundWords (snd (handleBeeSubmit
      \<lparr>beeLetters = Some ''ABCDEFG'', beeCenterLetter = Some CHR ''A'', beeDictLoading = False,
       beeValidWords = [''BCDE'', ''ABCX'', ''ABCD''], beePangrams = [], beeFoundWords = [''ABCD'']\<rparr>
      ''BCDE'')) = [''ABCD'']
   \<and> beeFoundWords (snd (handleBeeSubmit
      \<lparr>beeLetters = Some ''ABCDEFG'', beeCenterLetter = Some CHR ''A'', beeDictLoading = False,
       beeValidWords = [''BCDE'', ''ABCX'', ''ABCD''], beePangrams = [], beeFoundWords = [''ABCD'']\<rparr>
      ''ABCX'')) = [''ABCD'']"
proof -
  let ?s = "\<lparr>beeLetters = Some ''ABCDEFG'', beeCenterLetter = Some CHR ''A'', beeDictLoading = False,
       beeValidWords = [''BCDE'', ''ABCX'', ''ABCD''], beePangrams = [], beeFoundWords = [''ABCD'']\<rparr>"
  have l: "beeLetters ?s = Some ''ABCDEFG''" and c: "beeCenterLetter ?s = Some CHR ''A''"
    by simp_all
  have h1: "CHR ''A'' \<notin> set ''BCDE'' \<or> \<not> set ''BCDE'' \<subseteq> set ''ABCDEFG''" by simp
  have h2: "CHR ''A'' \<notin> set ''ABCX'' \<or> \<not> set ''ABCX'' \<subseteq> set ''ABCDEFG''" by simp
  have r1: "fst (handleBeeSubmit ?s ''BCDE'') = Rejected MissingCenter"
    by (simp add: handleBeeSubmit_def)
  have r2: "fst (handleBeeSubmit ?s ''ABCX'') = Rejected OutsideHive"
    by (simp add: handleBeeSubmit_def)
  from bee_submit_outside_hive_rejected [OF l c h1] bee_submit_outside_hive_rejected [OF l c h2] r1 r2
  show ?thesis by simp
qed

section \<open>Streakle: the locked pattern and the states a game reaches\<close>

lemma findIndexFalse_less: "findIndexFalse vs = Some n \<Longrightarrow> n < length vs"
  by (induction vs arbitrary: n) (auto split: if_splits)

lemma jsAssign_in_range: "i < length xs \<Longrightarrow> jsAssign xs i v = xs[i := v]"
  by (simp add: jsAssign_def)

lemma nth_map_upt0: "i < n \<Longrightarrow> map f [0..<n] ! i = f i"
  by simp

lemma fold_assign_prefix:
  assumes "length p = n" "k \<le> n"
  shows "fold (\<lambda>col q. if c col then jsAssign q col (v col) else q) [0..<k] p
         = map (\<lambda>i. if i < k \<and> c i then v i else p ! i) [0..<n]"
  using assms(2)
proof (induction k)
  case 0
  then show ?case using assms(1) by (auto intro!: nth_equalityI)
next
  case (Suc k)
  then have k: "k < n" by simp
  let ?q = "map (\<lambda>i. if i < k \<and> c i then v i else p ! i) [0..<n]"
  have IH: "fold (\<lambda>col q. if c col then jsAssign q col (v col) else q) [0..<k] p = ?q"
    using Suc by simp
  have asg: "jsAssign ?q k w = ?q[k := w]" for w
    using k by (simp add: jsAssign_in_range)
  show ?case
    using k by (auto simp: IH asg nth_list_update less_Suc_eq intro!: nth_equalityI)
qed

lemma lockedRow_char:
  assumes "length p = 5" "length resultRow = 5" "g \<noteq> []"
  shows "lockedRow (Some g) resultRow p
         = map (\<lambda>i. if resultRow ! i = Correct then jsIndex g i else p ! i) [0..<5]"
proof -
  have "lockedRow (Some g) resultRow p
        = map (\<lambda>i. if i < 5 \<and> (resultRow ! i = Correct \<and> g \<noteq> []) then jsIndex g i else p ! i) [0..<5]"
    using fold_assign_prefix[OF assms(1) le_refl, of "\<lambda>col. resultRow ! col = Correct \<and> g \<noteq> []" "jsIndex g"]
      assms(2)
    by (simp only: lockedRow_def option.case)
  also have "\<dots> = map (\<lambda>i. if resultRow ! i = Correct then jsIndex g i else p ! i) [0..<5]"
    using assms(3) by (intro map_cong) auto
  finally show ?thesis .
qed

lemma locked_rows_char:
  assumes t: "length t = 5"
    and gs: "\<And>g. g \<in> set guesses \<Longrightarrow> length g = 5"
    and k: "k \<le> length guesses"
  shows "fold (\<lambda>row p. lockedRow (jsIndex guesses row)
                         (map (\<lambda>guess. scoreWordleGuess guess t) guesses ! row) p)
              [0..<k] (replicate 5 wildcard)
         = map (\<lambda>i. if \<exists>row<k. guesses ! row ! i = t ! i then Some (t ! i) else wildcard) [0..<5]"
  using k
proof (induction k)
  case 0
  then show ?case by (auto intro!: nth_equalityI)
next
  case (Suc k)
  then have kl: "k < length guesses" by simp
  let ?g = "guesses ! k"
  let ?p = "map (\<lambda>i. if \<exists>row<k. guesses ! row ! i = t ! i then Some (t ! i) else wildcard) [0..<5]"
  have g5: "length ?g = 5" using gs kl by simp
  then have gne: "?g \<noteq> []" by auto
  have row: "map (\<lambda>guess. scoreWordleGuess guess t) guesses ! k = scoreWordleGuess ?g t"
    using kl by simp
  have corr: "(scoreWordleGuess ?g t ! i = Correct) = (?g ! i = t ! i)" if "i < 5" for i
    using score_correct_iff[of i t ?g] that t g5 by (simp add: jsIndex_def)
  have "lockedRow (jsIndex guesses k) (map (\<lambda>guess. scoreWordleGuess guess t) guesses ! k) ?p
        = map (\<lambda>i. if scoreWordleGuess ?g t ! i = Correct then jsIndex ?g i else ?p ! i) [0..<5]"
    unfolding row using kl lockedRow_char[of ?p "scoreWordleGuess ?g t" ?g] gne t
    by (simp add: jsIndex_def length_scoreWordleGuess)
  also have "\<dots> = map (\<lambda>i. if \<exists>row<Suc k. guesses ! row ! i = t ! i then Some (t ! i) else wildcard) [0..<5]"
  proof (rule map_cong[OF refl])
    fix i assume "i \<in> set [0..<5]"
    then have i: "i < 5" by simp
    have ex: "(\<exists>row<Suc k. guesses ! row ! i = t ! i)
              = ((\<exists>row<k. guesses ! row ! i = t ! i) \<or> ?g ! i = t ! i)"
      by (auto simp: less_Suc_eq)
    have pi: "?p ! i = (if \<exists>row<k. guesses ! row ! i = t ! i then Some (t ! i) else wildcard)"
      by (rule nth_map_upt0[OF i])
    have gi: "jsIndex ?g i = Some (?g ! i)" using i g5 by (simp add: jsIndex_def)
    show "(if scoreWordleGuess ?g t ! i = Correct then jsIndex ?g i else ?p ! i)
          = (if \<exists>row<Suc k. guesses ! row ! i = t ! i then Some (t ! i) else wildcard)"
    proof (cases "?g ! i = t ! i")
      case True
      then show ?thesis using corr[OF i] ex gi by simp
    next
      case False
      then show ?thesis using corr[OF i] ex pi by simp
    qed
  qed
  finally show ?case using Suc by simp
qed

lemma streakleLockedPattern_char:
  assumes inv: "streakleInv words targets s"
    and corpus: "\<forall>w\<in>set words. length w = 5 \<and> CHR ''_'' \<notin> set w"
    and targets: "set targets \<subseteq> set words" "length targets = 3"
  shows "streakleLockedPattern s
         = map (\<lambda>i. if \<exists>row<length (streakleGuesses s).
                          streakleGuesses s ! row ! i = targets ! streakleCurrentIndex s ! i
                     then Some (targets ! streakleCurrentIndex s ! i) else wildcard) [0..<5]"
proof -
  let ?c = "streakleCurrentIndex s"
  let ?t = "targets ! ?c"
  let ?gs = "streakleGuesses s"
  from inv have tg: "streakleTargets s = Some targets"
    and res: "streakleResults s = computeStreakleResults ?gs targets"
    and sub: "set ?gs \<subseteq> set words" and c: "?c < 3"
    by (simp_all add: streakleInv_def)
  have tin: "?t \<in> set words" using targets c by (metis nth_mem subsetD)
  then have t5: "length ?t = 5" using corpus by simp
  have g5: "\<And>g. g \<in> set ?gs \<Longrightarrow> length g = 5" using sub corpus by auto
  have board: "jsIndex (streakleResults s) ?c = Some (map (\<lambda>guess. scoreWordleGuess guess ?t) ?gs)"
    using res c targets(2) by (simp add: jsIndex_def computeStreakleResults_def)
  have ne: "targets \<noteq> []" using targets(2) by auto
  show ?thesis
    using locked_rows_char[OF t5 g5 le_refl] tg board ne
    by (simp add: streakleLockedPattern_def)
qed

lemma startNewStreakleGame_inv:
  assumes "startWord \<in> set words" "length targets = 3"
  shows "streakleInv words targets (startNewStreakleGame startWord targets)"
proof -
  let ?solved = "map (\<lambda>t. t = startWord) targets"
  have "(case findIndexFalse ?solved of None \<Rightarrow> 0 | Some n \<Rightarrow> n) < 3"
    using findIndexFalse_less[of ?solved] assms(2) by (auto split: option.splits)
  then show ?thesis using assms(1)
    by (simp add: streakleInv_def startNewStreakleGame_def Let_def)
qed

lemma handleStreakleSubmit_inv:
  assumes inv: "streakleInv words targets s" and len: "length targets = 3"
    and h: "handleStreakleSubmit (Some (set words)) s raw = (out, s')"
  shows "streakleInv words targets s'"
proof (cases "out = Accepted")
  case False
  then have "s' = s \<or> s' = s\<lparr>streakleDone := True\<rparr>"
    using h by (auto simp: handleStreakleSubmit_def Let_def split: option.splits if_splits)
  then show ?thesis using inv by (auto simp: streakleInv_def)
next
  case True
  let ?ng = "streakleGuesses s @ [raw]"
  let ?solved = "map (\<lambda>t. t \<in> set ?ng) targets"
  from inv have tg: "streakleTargets s = Some targets" and c: "streakleCurrentIndex s < 3"
    and sub: "set (streakleGuesses s) \<subseteq> set words"
    by (simp_all add: streakleInv_def)
  from True h tg have raw: "raw \<in> set words"
    by (auto simp: handleStreakleSubmit_def hasWord_def Let_def split: if_splits)
  have idx: "(case findIndexFalse ?solved of None \<Rightarrow> streakleCurrentIndex s | Some n \<Rightarrow> n) < 3"
    using findIndexFalse_less[of ?solved] len c by (auto split: option.splits)
  from True h tg have s': "streakleTargets s' = Some targets"
    "streakleGuesses s' = ?ng"
    "streakleResults s' = computeStreakleResults ?ng targets"
    "streakleCurrentIndex s' = streakleCurrentIndex s
       \<or> streakleCurrentIndex s' = (case findIndexFalse ?solved of None \<Rightarrow> streakleCurrentIndex s | Some n \<Rightarrow> n)"
    "8 \<le> length ?ng \<longrightarrow> streakleDone s'"
    by (auto simp: handleStreakleSubmit_def Let_def split: if_splits)
  then show ?thesis using raw sub c idx
    by (auto simp: streakleInv_def)
qed

lemma streakleRun_snoc:
  "streakleRun wordSet s (raws @ [raw])
     = snd (handleStreakleSubmit wordSet (streakleRun wordSet s raws) raw)"
  by (simp add: streakleRun_def)

lemma streakleRun_inv:
  assumes "streakleInv words targets s" "length targets = 3"
  shows "streakleInv words targets (streakleRun (Some (set words)) s raws)"
proof (induction raws rule: rev_induct)
  case Nil
  then show ?case using assms(1) by (simp add: streakleRun_def)
next
  case (snoc raw raws)
  let ?s = "streakleRun (Some (set words)) s raws"
  obtain out s' where h: "handleStreakleSubmit (Some (set words)) ?s raw = (out, s')"
    by (cases "handleStreakleSubmit (Some (set words)) ?s raw")
  from handleStreakleSubmit_inv[OF snoc assms(2) h] h show ?case
    by (simp add: streakleRun_snoc)
qed

lemma streakle_reject_unchanged:
  assumes "streakleInv words targets s"
    and "fst (handleStreakleSubmit wordSet s raw) \<noteq> Accepted"
  shows "(\<exists>r. fst (handleStreakleSubmit wordSet s raw) = Rejected r)
         \<and> snd (handleStreakleSubmit wordSet s raw) = s"
  using assms
  by (auto simp: handleStreakleSubmit_def streakleInv_def Let_def split: option.splits if_splits)

text \<open>
  C2 (Streakle lock invariant). Over a word list of five-letter words without the
  wildcard character, take any state reached from a new game by any sequence of submits.
  If the stored feedback of the active target marks position \<open>i\<close> of an earlier guess as
  correct, with \<open>X\<close> the letter of that guess there, then a submitted guess with another
  letter at \<open>i\<close> is rejected and the whole state is returned unchanged; so every accepted
  guess has \<open>X\<close> at \<open>i\<close>.
\<close>

theorem streakle_locked_positions:
  assumes corpus: "\<forall>w\<in>set words. length w = 5 \<and> CHR ''_'' \<notin> set w"
    and picks: "startWord \<in> set words" "set targets \<subseteq> set words" "length targets = 3"
    and reach: "s = streakleRun (Some (set words)) (startNewStreakleGame startWord targets) raws"
    and lock: "row < length (streakleGuesses s)" "i < 5"
      "streakleResults s ! streakleCurrentIndex s ! row ! i = Correct"
    and X: "X = streakleGuesses s ! row ! i"
  shows "(jsIndex raw i \<noteq> Some X \<longrightarrow>
            (\<exists>r. fst (handleStreakleSubmit (Some (set words)) s raw) = Rejected r)
            \<and> snd (handleStreakleSubmit (Some (set words)) s raw) = s)
       \<and> (fst (handleStreakleSubmit (Some (set words)) s raw) = Accepted \<longrightarrow>
            jsIndex raw i = Some X)"
proof -
  let ?c = "streakleCurrentIndex s"
  let ?t = "targets ! ?c"
  let ?gs = "streakleGuesses s"
  let ?ws = "Some (set words)"
  have inv: "streakleInv words targets s"
    unfolding reach
    by (rule streakleRun_inv[OF startNewStreakleGame_inv[OF picks(1,3)] picks(3)])
  then have res: "streakleResults s = computeStreakleResults ?gs targets"
    and sub: "set ?gs \<subseteq> set words" and c: "?c < 3"
    by (simp_all add: streakleInv_def)
  have tin: "?t \<in> set words" using picks(2,3) c by (metis nth_mem subsetD)
  then have t5: "length ?t = 5" and tno: "CHR ''_'' \<notin> set ?t" using corpus by simp_all
  have g5: "length (?gs ! row) = 5" using sub corpus lock(1) by (meson nth_mem subsetD)
  have "streakleResults s ! ?c ! row = scoreWordleGuess (?gs ! row) ?t"
    using res c picks(3) lock(1) by (simp add: computeStreakleResults_def)
  with lock(3) have "jsIndex (?gs ! row) i = Some (?t ! i)"
    using score_correct_iff[of i ?t "?gs ! row"] t5 lock(2) by simp
  then have Xt: "X = ?t ! i" using X g5 lock(2) by (simp add: jsIndex_def)
  have Xw: "Some X \<noteq> wildcard"
    using Xt tno t5 lock(2) by (metis nth_mem option.inject wildcard_def)
  have pat: "streakleLockedPattern s
         = map (\<lambda>i. if \<exists>row<length ?gs. ?gs ! row ! i = ?t ! i then Some (?t ! i) else wildcard) [0..<5]"
    by (rule streakleLockedPattern_char[OF inv corpus picks(2,3)])
  have ex: "\<exists>row<length ?gs. ?gs ! row ! i = ?t ! i" using lock(1) X Xt by auto
  have pi: "streakleLockedPattern s ! i = Some X" and plen: "length (streakleLockedPattern s) = 5"
    unfolding pat using lock(2) ex Xt by (simp_all del: upt_Suc)
  have rej: "fst (handleStreakleSubmit ?ws s raw) \<noteq> Accepted" if "jsIndex raw i \<noteq> Some X"
  proof -
    have "list_ex (\<lambda>i. let lock = streakleLockedPattern s ! i
                       in lock \<noteq> wildcard \<and> jsIndex raw i \<noteq> lock)
                  [0..<length (streakleLockedPattern s)]"
      unfolding list_ex_iff using pi plen lock(2) Xw that
      by (auto simp: Let_def intro!: bexI[of _ i])
    then show ?thesis using plen
      by (auto simp: handleStreakleSubmit_def Let_def split: option.splits)
  qed
  from rej streakle_reject_unchanged[OF inv, of ?ws raw] show ?thesis by blast
qed

theorem streakle_locked_positions_witness:
  "streakleGuesses (streakleRun (Some (set [''CRANE'', ''CRAZE'', ''CRATE'', ''SLATE'', ''GHOST'']))
        (startNewStreakleGame ''CRANE'' [''CRATE'', ''SLATE'', ''GHOST'']) [''CRAZE''])
      = [''CRANE'', ''CRAZE'']
   \<and> streakleResults (streakleRun (Some (set [''CRANE'', ''CRAZE'', ''CRATE'', ''SLATE'', ''GHOST'']))
        (startNewStreakleGame ''CRANE'' [''CRATE'', ''SLATE'', ''GHOST'']) [''CRAZE''])
      ! streakleCurrentIndex (streakleRun (Some (set [''CRANE'', ''CRAZE'', ''CRATE'', ''SLATE'', ''GHOST'']))
        (startNewStreakleGame ''CRANE'' [''CRATE'', ''SLATE'', ''GHOST'']) [''CRAZE''])
      ! 0 ! 0 = Correct
   \<and> fst (handleStreakleSubmit (Some (set [''CRANE'', ''CRAZE'', ''CRATE'', ''SLATE'', ''GHOST'']))
        (streakleRun (Some (set [''CRANE'', ''CRAZE'', ''CRATE'', ''SLATE'', ''GHOST'']))
           (startNewStreakleGame ''CRANE'' [''CRATE'', ''SLATE'', ''GHOST'']) [''CRAZE''])
        ''SLATE'') = Rejected LockedLetters
   \<and> snd (handleStreakleSubmit (Some (set [''CRANE'', ''CRAZE'', ''CRATE'', ''SLATE'', ''GHOST'']))
        (streakleRun (Some (set [''CRANE'', ''CRAZE'', ''CRATE'', ''SLATE'', ''GHOST'']))
           (startNewStreakleGame ''CRANE'' [''CRATE'', ''SLATE'', ''GHOST'']) [''CRAZE''])
        ''SLATE'')
      = streakleRun (Some (set [''CRANE'', ''CRAZE'', ''CRATE'', ''SLATE'', ''GHOST'']))
          (startNewStreakleGame ''CRANE'' [''CRATE'', ''SLATE'', ''GHOST'']) [''CRAZE'']
   \<and> fst (handleStreakleSubmit (Some (set [''CRANE'', ''CRAZE'', ''CRATE'', ''SLATE'', ''GHOST'']))
        (streakleRun (Some (set [''CRANE'', ''CRAZE'', ''CRATE'', ''SLATE'', ''GHOST'']))
           (startNewStreakleGame ''CRANE'' [''CRATE'', ''SLATE'', ''GHOST'']) [''CRAZE''])
        ''CRATE'') = Accepted
   \<and> jsIndex ''CRATE'' 0 = Some CHR ''C''"
proof -
  let ?words = "[''CRANE'', ''CRAZE'', ''CRATE'', ''SLATE'', ''GHOST'']"
  let ?targets = "[''CRATE'', ''SLATE'', ''GHOST'']"
  let ?s = "streakleRun (Some (set ?words)) (startNewStreakleGame ''CRANE'' ?targets) [''CRAZE'']"
  have corpus: "\<forall>w\<in>set ?words. length w = 5 \<and> CHR ''_'' \<notin> set w" by simp
  have p1: "''CRANE'' \<in> set ?words" and p2: "set ?targets \<subseteq> set ?words"
    and p3: "length ?targets = 3" by simp_all
  have gs: "streakleGuesses ?s = [''CRANE'', ''CRAZE'']" by code_simp
  have row: "0 < length (streakleGuesses ?s)" by (simp only: gs length_Cons zero_less_Suc)
  have i: "(0::nat) < 5" by simp
  have lock: "streakleResults ?s ! streakleCurrentIndex ?s ! 0 ! 0 = Correct" by code_simp
  have X: "CHR ''C'' = streakleGuesses ?s ! 0 ! 0" by (simp only: gs nth_Cons_0)
  have r: "fst (handleStreakleSubmit (Some (set ?words)) ?s ''SLATE'') = Rejected LockedLetters"
    by code_simp
  have a: "fst (handleStreakleSubmit (Some (set ?words)) ?s ''CRATE'') = Accepted"
    by code_simp
  have d: "jsIndex ''SLATE'' 0 \<noteq> Some CHR ''C''" by (simp add: jsIndex_def)
  from streakle_locked_positions [OF corpus p1 p2 p3 refl row i lock X, of "''SLATE''"]
    streakle_locked_positions [OF corpus p1 p2 p3 refl row i lock X, of "''CRATE''"]
    corpus gs lock r a d
  show ?thesis by blast
qed

section \<open>Hive builder: which attempt the loop returns\<close>

lemma beeAttempt_nth:
  "beeAttempt rnd dictionary (pangramCandidates dictionary) (attemptPos rnd dictionary a)
     = (nthAttempt rnd dictionary a, attemptPos rnd dictionary (Suc a))"
  by (simp add: nthAttempt_def)

lemma beeAttempts_step:
  assumes "pangramCandidates dictionary \<noteq> []"
  shows "beeAttempts rnd dictionary (pangramCandidates dictionary) (Suc n)
           (attemptPos rnd dictionary a) best
         = (if \<not> withinCap (nthAttempt rnd dictionary a)
            then beeAttempts rnd dictionary (pangramCandidates dictionary) n
                   (attemptPos rnd dictionary (Suc a)) best
            else if accepts (nthAttempt rnd dictionary a) then Some (nthAttempt rnd dictionary a)
            else beeAttempts rnd dictionary (pangramCandidates dictionary) n
                   (attemptPos rnd dictionary (Suc a))
                   (trackBest (nthAttempt rnd dictionary a) best))"
  using assms
  by (auto simp: beeAttempt_nth withinCap_def accepts_def simp del: attemptPos.simps)

lemma beeAttempts_first_accept:
  assumes "pangramCandidates dictionary \<noteq> []"
    and "m < n"
    and "accepts (nthAttempt rnd dictionary (a + m))"
    and "\<And>b. a \<le> b \<Longrightarrow> b < a + m \<Longrightarrow> \<not> accepts (nthAttempt rnd dictionary b)"
  shows "beeAttempts rnd dictionary (pangramCandidates dictionary) n
           (attemptPos rnd dictionary a) best
         = Some (nthAttempt rnd dictionary (a + m))"
  using assms(2-)
proof (induction m arbitrary: a n best)
  case 0
  then obtain n' where n: "n = Suc n'" by (cases n) auto
  from 0(2) have acc: "accepts (nthAttempt rnd dictionary a)" by simp
  then have "withinCap (nthAttempt rnd dictionary a)" by (simp add: accepts_def withinCap_def)
  with acc show ?case unfolding n beeAttempts_step[OF assms(1)] by simp
next
  case (Suc m)
  then obtain n' where n: "n = Suc n'" and mn: "m < n'" by (cases n) auto
  have nacc: "\<not> accepts (nthAttempt rnd dictionary a)" using Suc.prems(3)[of a] by simp
  have acc': "accepts (nthAttempt rnd dictionary (Suc a + m))" using Suc.prems(2) by simp
  have rest: "\<And>b. Suc a \<le> b \<Longrightarrow> b < Suc a + m \<Longrightarrow> \<not> accepts (nthAttempt rnd dictionary b)"
    using Suc.prems(3) by simp
  have "beeAttempts rnd dictionary (pangramCandidates dictionary) n'
          (attemptPos rnd dictionary (Suc a)) best'
        = Some (nthAttempt rnd dictionary (Suc a + m))" for best'
    by (rule Suc.IH[OF mn acc' rest])
  then show ?case unfolding n beeAttempts_step[OF assms(1)] using nacc by simp
qed

text \<open>Without an accepted attempt the loop folds \<open>trackBest\<close> over the attempts within the cap.\<close>

lemma beeAttempts_no_accept:
  assumes "pangramCandidates dictionary \<noteq> []"
    and "\<And>b. a \<le> b \<Longrightarrow> b < a + n \<Longrightarrow> \<not> accepts (nthAttempt rnd dictionary b)"
  shows "beeAttempts rnd dictionary (pangramCandidates dictionary) n
           (attemptPos rnd dictionary a) best
         = fold (\<lambda>b bst. if withinCap (nthAttempt rnd dictionary b)
                          then trackBest (nthAttempt rnd dictionary b) bst else bst)
                [a..<a + n] best"
  using assms(2)
proof (induction n arbitrary: a best)
  case 0
  then show ?case by simp
next
  case (Suc n)
  have nacc: "\<not> accepts (nthAttempt rnd dictionary a)" using Suc.prems[of a] by simp
  have rest: "\<And>b. Suc a \<le> b \<Longrightarrow> b < Suc a + n \<Longrightarrow> \<not> accepts (nthAttempt rnd dictionary b)"
    using Suc.prems by simp
  have up: "[a..<a + Suc n] = a # [Suc a..<Suc a + n]" by (simp add: upt_rec)
  have ih: "beeAttempts rnd dictionary (pangramCandidates dictionary) n
              (attemptPos rnd dictionary (Suc a)) best'
            = fold (\<lambda>b bst. if withinCap (nthAttempt rnd dictionary b)
                             then trackBest (nthAttempt rnd dictionary b) bst else bst)
                   [Suc a..<Suc a + n] best'" for best'
    by (rule Suc.IH[OF rest])
  show ?case
  proof (cases "withinCap (nthAttempt rnd dictionary a)")
    case True
    then show ?thesis
      by (simp only: beeAttempts_step[OF assms(1)] up fold_simps ih nacc if_True if_False
            not_True_eq_False)
  next
    case False
    then show ?thesis
      by (simp only: beeAttempts_step[OF assms(1)] up fold_simps ih if_True if_False
            not_False_eq_True)
  qed
qed

lemma trackBest_fold_None:
  "(fold (\<lambda>b bst. if withinCap (att b) then trackBest (att b) bst else bst) bs best = None)
     = (best = None \<and> (\<forall>b\<in>set bs. \<not> withinCap (att b)))"
proof (induction bs arbitrary: best)
  case Nil
  then show ?case by simp
next
  case (Cons b bs)
  let ?best' = "if withinCap (att b) then trackBest (att b) best else best"
  have "(?best' = None) = (best = None \<and> \<not> withinCap (att b))"
    by (auto simp: trackBest_def split: option.splits)
  with Cons.IH[of ?best'] show ?case by (simp only: fold_simps) auto
qed

lemma trackBest_fold_Some:
  assumes "fold (\<lambda>b bst. if withinCap (att b) then trackBest (att b) bst else bst) bs best = Some p"
  shows "(best = Some p \<or> (\<exists>b\<in>set bs. withinCap (att b) \<and> p = att b))
         \<and> (\<forall>b\<in>set bs. withinCap (att b) \<longrightarrow> length (valid (att b)) \<le> length (valid p))
         \<and> (\<forall>q. best = Some q \<longrightarrow> length (valid q) \<le> length (valid p))"
  using assms
proof (induction bs arbitrary: best)
  case Nil
  then show ?case by simp
next
  case (Cons b bs)
  let ?best' = "if withinCap (att b) then trackBest (att b) best else best"
  from Cons.prems
  have f: "fold (\<lambda>b bst. if withinCap (att b) then trackBest (att b) bst else bst) bs ?best' = Some p"
    by (simp only: fold_simps)
  note ih = Cons.IH[OF f]
  have origin: "?best' = Some p \<Longrightarrow> best = Some p \<or> (withinCap (att b) \<and> p = att b)"
    by (auto simp: trackBest_def split: option.splits if_splits)
  have keep: "\<And>q. best = Some q \<Longrightarrow> \<exists>q'. ?best' = Some q' \<and> length (valid q) \<le> length (valid q')"
    by (auto simp: trackBest_def)
  have new: "withinCap (att b) \<Longrightarrow> \<exists>q'. ?best' = Some q' \<and> length (valid (att b)) \<le> length (valid q')"
    by (auto simp: trackBest_def split: option.splits)
  have a: "best = Some p \<or> (\<exists>b'\<in>set (b # bs). withinCap (att b') \<and> p = att b')"
    using ih origin by auto
  have b: "\<forall>b'\<in>set (b # bs). withinCap (att b') \<longrightarrow> length (valid (att b')) \<le> length (valid p)"
  proof
    fix b' assume "b' \<in> set (b # bs)"
    then consider "b' = b" | "b' \<in> set bs" by auto
    then show "withinCap (att b') \<longrightarrow> length (valid (att b')) \<le> length (valid p)"
    proof cases
      case 1
      show ?thesis
      proof
        assume "withinCap (att b')"
        with 1 new obtain q' where "?best' = Some q'" "length (valid (att b)) \<le> length (valid q')"
          by auto
        with ih 1 show "length (valid (att b')) \<le> length (valid p)"
          by (metis order_trans)
      qed
    next
      case 2
      with ih show ?thesis by blast
    qed
  qed
  have c: "\<forall>q. best = Some q \<longrightarrow> length (valid q) \<le> length (valid p)"
  proof (intro allI impI)
    fix q assume "best = Some q"
    with keep obtain q' where "?best' = Some q'" "length (valid q) \<le> length (valid q')" by blast
    with ih show "length (valid q) \<le> length (valid p)" by (metis order_trans)
  qed
  from a b c show ?case by blast
qed

lemma nthAttempt_valid_le: "length (valid (nthAttempt rnd dictionary a)) \<le> length dictionary"
  by (simp add: nthAttempt_def beeAttempt_def Let_def split: prod.splits)

text \<open>
  C5 (hive builder). With candidate base words present: the loop returns the first of
  its 600 attempts that is within the density cap of 100, has at least 12 valid words
  and at least one pangram; when no attempt passes that test but some attempt is within
  the cap, it returns one of those with the largest number of valid words. It returns
  nothing exactly when there is no candidate base word or none of the 600 attempts is
  within the cap.
\<close>

theorem buildBeePuzzle_selection:
  "(pangramCandidates dictionary \<noteq> [] \<and> a < 600
      \<and> accepts (nthAttempt rnd dictionary a)
      \<and> (\<forall>b<a. \<not> accepts (nthAttempt rnd dictionary b))
      \<longrightarrow> buildBeePuzzle rnd dictionary = Some (nthAttempt rnd dictionary a))
   \<and> (pangramCandidates dictionary \<noteq> []
      \<and> (\<forall>b<600. \<not> accepts (nthAttempt rnd dictionary b))
      \<and> (\<exists>b<600. withinCap (nthAttempt rnd dictionary b))
      \<longrightarrow> (\<exists>m<600. withinCap (nthAttempt rnd dictionary m)
             \<and> buildBeePuzzle rnd dictionary = Some (nthAttempt rnd dictionary m)
             \<and> (\<forall>b<600. withinCap (nthAttempt rnd dictionary b) \<longrightarrow>
                   length (valid (nthAttempt rnd dictionary b))
                     \<le> length (valid (nthAttempt rnd dictionary m)))))
   \<and> ((buildBeePuzzle rnd dictionary = None)
        = (pangramCandidates dictionary = []
           \<or> (\<forall>b<600. \<not> withinCap (nthAttempt rnd dictionary b))))"
proof (intro conjI impI)
  assume h: "pangramCandidates dictionary \<noteq> [] \<and> a < 600
      \<and> accepts (nthAttempt rnd dictionary a)
      \<and> (\<forall>b<a. \<not> accepts (nthAttempt rnd dictionary b))"
  then have "beeAttempts rnd dictionary (pangramCandidates dictionary) 600
               (attemptPos rnd dictionary 0) None
             = Some (nthAttempt rnd dictionary (0 + a))"
    by (intro beeAttempts_first_accept) auto
  then show "buildBeePuzzle rnd dictionary = Some (nthAttempt rnd dictionary a)"
    by (simp add: buildBeePuzzle_def)
next
  let ?F = "\<lambda>b bst. if withinCap (nthAttempt rnd dictionary b)
                    then trackBest (nthAttempt rnd dictionary b) bst else bst"
  assume h: "pangramCandidates dictionary \<noteq> []
      \<and> (\<forall>b<600. \<not> accepts (nthAttempt rnd dictionary b))
      \<and> (\<exists>b<600. withinCap (nthAttempt rnd dictionary b))"
  then have "beeAttempts rnd dictionary (pangramCandidates dictionary) 600
               (attemptPos rnd dictionary 0) None
             = fold ?F [0..<0 + 600] None"
    by (intro beeAttempts_no_accept) auto
  then have run: "buildBeePuzzle rnd dictionary = fold ?F [0..<600] None"
    by (simp add: buildBeePuzzle_def)
  have "fold ?F [0..<600] None \<noteq> None"
    using h trackBest_fold_None[of "nthAttempt rnd dictionary" "[0..<600]" None]
    by (auto simp del: upt_Suc)
  then obtain p where p: "fold ?F [0..<600] None = Some p" by blast
  from trackBest_fold_Some[OF p]
  obtain m where "m < 600" "withinCap (nthAttempt rnd dictionary m)" "p = nthAttempt rnd dictionary m"
    and "\<forall>b<600. withinCap (nthAttempt rnd dictionary b) \<longrightarrow>
           length (valid (nthAttempt rnd dictionary b)) \<le> length (valid p)"
    by (auto simp del: upt_Suc)
  with run p show "\<exists>m<600. withinCap (nthAttempt rnd dictionary m)
             \<and> buildBeePuzzle rnd dictionary = Some (nthAttempt rnd dictionary m)
             \<and> (\<forall>b<600. withinCap (nthAttempt rnd dictionary b) \<longrightarrow>
                   length (valid (nthAttempt rnd dictionary b))
                     \<le> length (valid (nthAttempt rnd dictionary m)))"
    by auto
next
  let ?F = "\<lambda>b bst. if withinCap (nthAttempt rnd dictionary b)
                    then trackBest (nthAttempt rnd dictionary b) bst else bst"
  show "(buildBeePuzzle rnd dictionary = None)
        = (pangramCandidates dictionary = []
           \<or> (\<forall>b<600. \<not> withinCap (nthAttempt rnd dictionary b)))"
  proof (cases "pangramCandidates dictionary = []")
    case True
    have "beeAttempts rnd dictionary [] n k None = None" for n k
      by (cases n) simp_all
    with True show ?thesis by (simp add: buildBeePuzzle_def)
  next
    case False
    show ?thesis
    proof (cases "\<exists>a<600. accepts (nthAttempt rnd dictionary a)")
      case True
      define a where "a = (LEAST a. a < 600 \<and> accepts (nthAttempt rnd dictionary a))"
      from True have a: "a < 600 \<and> accepts (nthAttempt rnd dictionary a)"
        unfolding a_def by (rule LeastI_ex)
      have least: "\<And>b. b < a \<Longrightarrow> \<not> accepts (nthAttempt rnd dictionary b)"
      proof
        fix b assume "b < a" "accepts (nthAttempt rnd dictionary b)"
        then have "b < 600 \<and> accepts (nthAttempt rnd dictionary b)" using a by simp
        then have "a \<le> b" unfolding a_def by (rule Least_le)
        with \<open>b < a\<close> show False by simp
      qed
      have "beeAttempts rnd dictionary (pangramCandidates dictionary) 600
               (attemptPos rnd dictionary 0) None
             = Some (nthAttempt rnd dictionary (0 + a))"
        using False a least by (intro beeAttempts_first_accept) auto
      moreover have "withinCap (nthAttempt rnd dictionary a)"
        using a by (simp add: accepts_def withinCap_def)
      ultimately show ?thesis using False a by (auto simp: buildBeePuzzle_def)
    next
      case noacc: False
      then have "beeAttempts rnd dictionary (pangramCandidates dictionary) 600
               (attemptPos rnd dictionary 0) None
             = fold ?F [0..<0 + 600] None"
        using False by (intro beeAttempts_no_accept) auto
      then have run: "buildBeePuzzle rnd dictionary = fold ?F [0..<600] None"
        by (simp add: buildBeePuzzle_def)
      show ?thesis
        unfolding run trackBest_fold_None using False by (auto simp del: upt_Suc)
    qed
  qed
qed

theorem buildBeePuzzle_selection_witness:
  "accepts (nthAttempt rndZero
      [''ABCDEFG'', ''BACDEFG'', ''CABDEFG'', ''DABCEFG'', ''EABCDFG'', ''FABCDEG'',
       ''GABCDEF'', ''ABCDEGF'', ''ABCDFEG'', ''ABCEDFG'', ''ABDCEFG'', ''ACBDEFG''] 0)
   \<and> buildBeePuzzle rndZero
      [''ABCDEFG'', ''BACDEFG'', ''CABDEFG'', ''DABCEFG'', ''EABCDFG'', ''FABCDEG'',
       ''GABCDEF'', ''ABCDEGF'', ''ABCDFEG'', ''ABCEDFG'', ''ABDCEFG'', ''ACBDEFG'']
     = Some (nthAttempt rndZero
      [''ABCDEFG'', ''BACDEFG'', ''CABDEFG'', ''DABCEFG'', ''EABCDFG'', ''FABCDEG'',
       ''GABCDEF'', ''ABCDEGF'', ''ABCDFEG'', ''ABCEDFG'', ''ABDCEFG'', ''ACBDEFG''] 0)
   \<and> pangramCandidates [''ABCDEFG'', ''ABBA''] = [''ABCDEFG'']
   \<and> withinCap (nthAttempt rndZero [''ABCDEFG'', ''ABBA''] 0)
   \<and> (\<exists>m<600. buildBeePuzzle rndZero [''ABCDEFG'', ''ABBA'']
                  = Some (nthAttempt rndZero [''ABCDEFG'', ''ABBA''] m))
   \<and> pangramCandidates [''ABBA'', ''CABBAGE''] = []
   \<and> buildBeePuzzle rndZero [''ABBA'', ''CABBAGE''] = None"
proof -
  let ?d12 = "[''ABCDEFG'', ''BACDEFG'', ''CABDEFG'', ''DABCEFG'', ''EABCDFG'', ''FABCDEG'',
       ''GABCDEF'', ''ABCDEGF'', ''ABCDFEG'', ''ABCEDFG'', ''ABDCEFG'', ''ACBDEFG'']"
  let ?d2 = "[''ABCDEFG'', ''ABBA'']"
  let ?d0 = "[''ABBA'', ''CABBAGE'']"
  have c12: "pangramCandidates ?d12 \<noteq> []" by code_simp
  have a12: "accepts (nthAttempt rndZero ?d12 0)" by code_simp
  have c2: "pangramCandidates ?d2 = [''ABCDEFG'']" by code_simp
  have n2: "\<forall>b<600. \<not> accepts (nthAttempt rndZero ?d2 b)"
  proof (intro allI impI)
    fix b
    have "length (valid (nthAttempt rndZero ?d2 b)) \<le> 2"
      using nthAttempt_valid_le[of rndZero ?d2 b] by simp
    then show "\<not> accepts (nthAttempt rndZero ?d2 b)" by (simp add: accepts_def)
  qed
  have w2: "withinCap (nthAttempt rndZero ?d2 0)"
    using nthAttempt_valid_le[of rndZero ?d2 0] by (simp add: withinCap_def)
  have c0: "pangramCandidates ?d0 = []" by code_simp
  have first: "buildBeePuzzle rndZero ?d12 = Some (nthAttempt rndZero ?d12 0)"
    using buildBeePuzzle_selection [of ?d12 0 rndZero] c12 a12 by simp
  have ne2: "pangramCandidates ?d2 \<noteq> []" by (simp only: c2) simp
  have ex2: "\<exists>b<600. withinCap (nthAttempt rndZero ?d2 b)"
    using w2 by (intro exI[of _ 0]) simp
  have best: "\<exists>m<600. buildBeePuzzle rndZero ?d2 = Some (nthAttempt rndZero ?d2 m)"
    using conjunct1[OF conjunct2[OF buildBeePuzzle_selection [of ?d2 0 rndZero]]] ne2 n2 ex2
    by blast
  have none: "buildBeePuzzle rndZero ?d0 = None"
    using buildBeePuzzle_selection [of ?d0 0 rndZero] c0 by simp
  from a12 first c2 w2 best c0 none show ?thesis by blast
qed

section \<open>Pattern generator: the shape of the returned pattern\<close>

lemma randomIndex_less: "0 < n \<Longrightarrow> randomIndex rnd k n < n"
  by (simp add: randomIndex_def)

lemma filter_two_indices:
  assumes "a < b" "b < n"
  shows "filter (\<lambda>i. i = a \<or> i = b) [0..<n] = [a, b]"
proof (rule sorted_distinct_set_unique)
  show "sorted (filter (\<lambda>i. i = a \<or> i = b) [0..<n])" by (rule sorted_wrt_filter) simp
  show "distinct (filter (\<lambda>i. i = a \<or> i = b) [0..<n])" by simp
  show "sorted [a, b]" using assms by simp
  show "distinct [a, b]" using assms by simp
  show "set (filter (\<lambda>i. i = a \<or> i = b) [0..<n]) = set [a, b]" using assms by auto
qed

lemma concreteSlots_two_assigned:
  assumes "a < n" "b < n" "a \<noteq> b" "x \<noteq> wildcard" "y \<noteq> wildcard"
  shows "concreteSlots (jsAssign (jsAssign (replicate n wildcard) a x) b y)
         = [min a b, max a b]"
proof -
  let ?p = "(replicate n wildcard)[a := x, b := y]"
  have p: "jsAssign (jsAssign (replicate n wildcard) a x) b y = ?p"
    using assms(1,2) by (simp add: jsAssign_in_range)
  have "concreteSlots ?p = filter (\<lambda>i. i = min a b \<or> i = max a b) [0..<n]"
    unfolding concreteSlots_def using assms
    by (auto intro!: filter_cong simp: nth_list_update min_def max_def)
  also have "\<dots> = [min a b, max a b]"
    using assms(1-3) by (intro filter_two_indices) (auto simp: min_def max_def)
  finally show ?thesis by (simp only: p)
qed

lemma twoSeparatedSlots_assigned:
  assumes "a < n" "b < n" "\<not> \<bar>int b - int a\<bar> \<le> 1" "x \<noteq> wildcard" "y \<noteq> wildcard"
  shows "twoSeparatedSlots (jsAssign (jsAssign (replicate n wildcard) a x) b y)"
proof -
  from assms(3) have ne: "a \<noteq> b" and far: "min a b + 1 < max a b"
    by (auto simp: min_def max_def)
  show ?thesis
    unfolding twoSeparatedSlots_def concreteSlots_two_assigned[OF assms(1,2) ne assms(4,5)]
    using far by simp
qed

text \<open>
  Over a corpus of equal-length words without the wildcard character, the pattern an
  attempt builds has two separated concrete slots.
\<close>

lemma patternAttempt_unfold:
  fixes rnd words k
  defines "n \<equiv> length (words ! 0)"
    and "base \<equiv> words ! randomIndex rnd k (length words)"
  defines "first \<equiv> randomIndex rnd (k + 1) n"
  defines "cands \<equiv> filter (\<lambda>i. i \<noteq> first \<and> \<not> \<bar>int i - int first\<bar> \<le> 1) [0..<n]"
  defines "second \<equiv> cands ! randomIndex rnd (k + 2) (length cands)"
  defines "pat \<equiv> jsAssign (jsAssign (replicate n wildcard) first (jsIndex base first))
                        second (jsIndex base second)"
  defines "ms \<equiv> filter (\<lambda>w. matchesPattern w pat) words"
  shows "patternAttempt rnd words k fallback =
     (if cands = [] then Inr (k + 2, fallback)
      else if 3 \<le> length ms \<and> length ms \<le> 15 then Inl (pat, ms)
      else if 2 \<le> length ms then
        (case fallback of
           None \<Rightarrow> Inr (k + 3, Some (pat, ms))
         | Some (fallbackPattern, fallbackMatches) \<Rightarrow>
             if \<bar>int (length ms) - 9\<bar> < \<bar>int (length fallbackMatches) - 9\<bar>
             then Inr (k + 3, Some (pat, ms))
             else Inr (k + 3, fallback))
      else Inr (k + 3, fallback))"
  unfolding patternAttempt_def Let_def ms_def pat_def second_def cands_def first_def base_def n_def
  by (rule refl)

lemma patternAttempt_pattern:
  assumes ne: "words \<noteq> []"
    and corpus: "\<forall>w\<in>set words. length w = length (words ! 0) \<and> CHR ''_'' \<notin> set w"
    and r: "patternAttempt rnd words k fallback = Inl (p, m)
            \<or> (patternAttempt rnd words k fallback = Inr (k', Some (p, m)) \<and> fallback \<noteq> Some (p, m))"
  shows "twoSeparatedSlots p"
proof -
  define n where "n = length (words ! 0)"
  define base where "base = words ! randomIndex rnd k (length words)"
  define first where "first = randomIndex rnd (k + 1) n"
  define cands where "cands = filter (\<lambda>i. i \<noteq> first \<and> \<not> \<bar>int i - int first\<bar> \<le> 1) [0..<n]"
  define second where "second = cands ! randomIndex rnd (k + 2) (length cands)"
  define pat where "pat = jsAssign (jsAssign (replicate n wildcard) first (jsIndex base first))
                        second (jsIndex base second)"
  define ms where "ms = filter (\<lambda>w. matchesPattern w pat) words"
  note eq = patternAttempt_unfold[of rnd words k fallback,
      folded n_def base_def, folded first_def, folded cands_def, folded second_def,
      folded pat_def, folded ms_def]
  have cne: "cands \<noteq> []"
    using r unfolding eq by (auto split: if_splits)
  have pp: "p = pat"
    using r cne unfolding eq by (auto split: if_splits option.splits)
  have n0: "0 < n" using cne by (cases "n = 0") (auto simp: cands_def)
  have "base \<in> set words" using ne by (simp add: base_def randomIndex_less)
  then have blen: "length base = n" and bno: "CHR ''_'' \<notin> set base"
    using corpus by (auto simp: n_def)
  have f: "first < n" unfolding first_def using n0 by (rule randomIndex_less)
  have "second \<in> set cands" using cne by (simp add: second_def randomIndex_less)
  then have s: "second < n" and far: "\<not> \<bar>int second - int first\<bar> \<le> 1"
    by (auto simp: cands_def)
  have "base ! first \<in> set base" "base ! second \<in> set base"
    using f s blen by simp_all
  then have "base ! first \<noteq> CHR ''_''" "base ! second \<noteq> CHR ''_''"
    using bno by auto
  then have x: "jsIndex base first \<noteq> wildcard" and y: "jsIndex base second \<noteq> wildcard"
    using f s blen by (simp_all add: jsIndex_def wildcard_def)
  show ?thesis unfolding pp pat_def by (rule twoSeparatedSlots_assigned[OF f s far x y])
qed

lemma patternAttempt_fallback:
  assumes "patternAttempt rnd words k fallback = Inr (k', fallback')"
  shows "fallback' = fallback \<or> (\<exists>p m. fallback' = Some (p, m) \<and> fallback \<noteq> Some (p, m))"
proof -
  define n where "n = length (words ! 0)"
  define base where "base = words ! randomIndex rnd k (length words)"
  define first where "first = randomIndex rnd (k + 1) n"
  define cands where "cands = filter (\<lambda>i. i \<noteq> first \<and> \<not> \<bar>int i - int first\<bar> \<le> 1) [0..<n]"
  define second where "second = cands ! randomIndex rnd (k + 2) (length cands)"
  define pat where "pat = jsAssign (jsAssign (replicate n wildcard) first (jsIndex base first))
                        second (jsIndex base second)"
  define ms where "ms = filter (\<lambda>w. matchesPattern w pat) words"
  note eq = patternAttempt_unfold[of rnd words k fallback,
      folded n_def base_def, folded first_def, folded cands_def, folded second_def,
      folded pat_def, folded ms_def]
  show ?thesis
  proof (cases "fallback' = fallback")
    case True
    then show ?thesis by simp
  next
    case False
    then have "fallback' = Some (pat, ms)"
      using assms unfolding eq by (auto split: if_splits option.splits)
    with False show ?thesis by auto
  qed
qed

lemma patternAttempts_pattern:
  assumes ne: "words \<noteq> []"
    and corpus: "\<forall>w\<in>set words. length w = length (words ! 0) \<and> CHR ''_'' \<notin> set w"
    and fb: "\<And>p m. fallback = Some (p, m) \<Longrightarrow> twoSeparatedSlots p"
    and r: "patternAttempts rnd words n k fallback = Found (p, m)
            \<or> patternAttempts rnd words n k fallback = Exhausted (Some (p, m))"
  shows "twoSeparatedSlots p"
  using fb r
proof (induction n arbitrary: k fallback)
  case 0
  then show ?case by simp
next
  case (Suc n)
  show ?case
  proof (cases "patternAttempt rnd words k fallback")
    case (Inl result)
    with Suc.prems(2) have "result = (p, m)" by simp
    with Inl show ?thesis using patternAttempt_pattern[OF ne corpus] by blast
  next
    case (Inr nxt)
    obtain k' fallback' where nxt: "nxt = (k', fallback')" by (cases nxt)
    have fb': "twoSeparatedSlots q" if "fallback' = Some (q, l)" for q l
    proof (cases "fallback' = fallback")
      case True
      with that Suc.prems(1) show ?thesis by simp
    next
      case False
      with patternAttempt_fallback[of rnd words k fallback k' fallback'] Inr nxt that
      have "fallback \<noteq> Some (q, l)" by auto
      with Inr nxt that show ?thesis
        using patternAttempt_pattern[OF ne corpus, of rnd k fallback q l k'] by simp
    qed
    from Suc.prems(2) Inr nxt
    have "patternAttempts rnd words n k' fallback' = Found (p, m)
          \<or> patternAttempts rnd words n k' fallback' = Exhausted (Some (p, m))"
      by simp
    from Suc.IH[OF fb' this] show ?thesis by simp
  qed
qed

lemma lastResort_pattern:
  assumes "3 \<le> length (words ! 0)" "CHR ''_'' \<notin> set (words ! 0)"
  shows "twoSeparatedSlots (fst (lastResort words))"
proof -
  let ?w = "words ! 0"
  let ?n = "length ?w"
  have a: "0 < ?n" and b: "?n - 1 < ?n" and far: "\<not> \<bar>int (?n - 1) - int 0\<bar> \<le> 1"
    using assms(1) by auto
  have "?w ! 0 \<in> set ?w" "?w ! (?n - 1) \<in> set ?w"
    using a b by (simp_all del: One_nat_def)
  then have "?w ! 0 \<noteq> CHR ''_''" "?w ! (?n - 1) \<noteq> CHR ''_''"
    using assms(2) by auto
  then have x: "jsIndex ?w 0 \<noteq> wildcard" and y: "jsIndex ?w (?n - 1) \<noteq> wildcard"
    using a b by (simp_all add: jsIndex_def wildcard_def del: One_nat_def)
  have "fst (lastResort words)
        = jsAssign (jsAssign (replicate ?n wildcard) 0 (jsIndex ?w 0)) (?n - 1) (jsIndex ?w (?n - 1))"
    using assms(1) by (simp add: lastResort_def Let_def)
  then show ?thesis using twoSeparatedSlots_assigned[OF a b far x y] by simp
qed

text \<open>
  When the corpus has at most one word, or its words have at most two letters, no
  attempt accepts a pattern or records a fallback.
\<close>

lemma patternAttempt_idle:
  assumes "length words \<le> 1 \<or> length (words ! 0) \<le> 2"
  shows "\<exists>k'. patternAttempt rnd words k fallback = Inr (k', fallback)"
proof -
  define n where "n = length (words ! 0)"
  define base where "base = words ! randomIndex rnd k (length words)"
  define first where "first = randomIndex rnd (k + 1) n"
  define cands where "cands = filter (\<lambda>i. i \<noteq> first \<and> \<not> \<bar>int i - int first\<bar> \<le> 1) [0..<n]"
  define second where "second = cands ! randomIndex rnd (k + 2) (length cands)"
  define pat where "pat = jsAssign (jsAssign (replicate n wildcard) first (jsIndex base first))
                        second (jsIndex base second)"
  define ms where "ms = filter (\<lambda>w. matchesPattern w pat) words"
  note eq = patternAttempt_unfold[of rnd words k fallback,
      folded n_def base_def, folded first_def, folded cands_def, folded second_def,
      folded pat_def, folded ms_def]
  show ?thesis
  proof (cases "cands = []")
    case True
    then show ?thesis unfolding eq by simp
  next
    case False
    then obtain i where "i \<in> set cands" by (cases cands) auto
    then have i: "i < n" "\<not> \<bar>int i - int first\<bar> \<le> 1" by (auto simp: cands_def)
    moreover have "first < n" unfolding first_def using i(1) by (intro randomIndex_less) simp
    ultimately have "\<not> n \<le> 2" by auto
    with assms have few: "length words \<le> 1" by (simp add: n_def)
    have "length ms \<le> 1"
      unfolding ms_def by (rule order_trans[OF length_filter_le few])
    with False show ?thesis unfolding eq by simp
  qed
qed

lemma patternAttempts_idle:
  assumes "length words \<le> 1 \<or> length (words ! 0) \<le> 2"
  shows "patternAttempts rnd words n k fallback = Exhausted fallback"
proof (induction n arbitrary: k)
  case 0
  then show ?case by simp
next
  case (Suc n)
  from patternAttempt_idle[OF assms, of rnd k fallback]
  obtain k' where "patternAttempt rnd words k fallback = Inr (k', fallback)" by blast
  with Suc.IH[of k'] show ?case by simp
qed

lemma generate_short_AB:
  "patternAttempts rndZero [''AB''] 5000 0 None = Exhausted None"
  by (rule patternAttempts_idle) simp

lemma lastResort_AB: "lastResort [''AB''] = ([Some CHR ''A'', wildcard], [''AB''])"
  by (simp add: lastResort_def Let_def jsAssign_def jsIndex_def matchesPattern_def wildcard_def)

text \<open>
  C6 (two separated concrete slots). As stated the claim fails: for a corpus of
  two-letter words no attempt finds a second position, and the last resort fixes the
  first letter only.
\<close>

theorem generateTwoLetterPattern_slots_counterexample:
  "generateTwoLetterPattern rndZero [''AB''] = ([Some CHR ''A'', wildcard], [''AB''])
   \<and> concreteSlots (fst (generateTwoLetterPattern rndZero [''AB''])) = [0]
   \<and> \<not> twoSeparatedSlots (fst (generateTwoLetterPattern rndZero [''AB'']))"
proof -
  have g: "generateTwoLetterPattern rndZero [''AB''] = ([Some CHR ''A'', wildcard], [''AB''])"
    by (simp add: generateTwoLetterPattern_def generate_short_AB lastResort_AB)
  have c: "concreteSlots [Some CHR ''A'', wildcard] = [0]"
    by (simp add: concreteSlots_def wildcard_def upt_rec)
  from g c show ?thesis by (simp add: twoSeparatedSlots_def)
qed

lemma lastResort_pattern_shape:
  assumes "1 \<le> length (words ! 0)"
  shows "fst (lastResort words)
         = (if length (words ! 0) = 2 then [Some (words ! 0 ! 0), wildcard]
            else firstLastPattern (words ! 0))"
proof -
  let ?w = "words ! 0"
  let ?n = "length ?w"
  consider (one) "?n = 1" | (two) "?n = 2" | (more) "3 \<le> ?n" using assms by linarith
  then show ?thesis
  proof cases
    case one
    then have "?w \<noteq> []" by auto
    with one show ?thesis
      by (simp add: lastResort_def Let_def jsAssign_def jsIndex_def firstLastPattern_def)
  next
    case two
    then have "replicate ?n wildcard = [wildcard, wildcard]"
      by (simp add: numeral_2_eq_2)
    moreover from two have "?w \<noteq> []" by auto
    ultimately show ?thesis using two
      by (simp add: lastResort_def Let_def jsAssign_def jsIndex_def)
  next
    case more
    then have "?w \<noteq> []" by auto
    with more have "fst (lastResort words)
        = (replicate ?n wildcard)[0 := Some (?w ! 0), ?n - 1 := Some (?w ! (?n - 1))]"
      by (simp add: lastResort_def Let_def jsAssign_def jsIndex_def)
    also have "\<dots> = firstLastPattern ?w"
      unfolding firstLastPattern_def
    proof (rule nth_equalityI)
      show "length ((replicate ?n wildcard)[0 := Some (?w ! 0), ?n - 1 := Some (?w ! (?n - 1))])
            = length (map (\<lambda>i. if i = 0 \<or> i = ?n - 1 then Some (?w ! i) else wildcard) [0..<?n])"
        by simp
    next
      fix i
      assume "i < length ((replicate ?n wildcard)[0 := Some (?w ! 0), ?n - 1 := Some (?w ! (?n - 1))])"
      then have i: "i < ?n" by simp
      have l: "(replicate ?n wildcard)[0 := Some (?w ! 0), ?n - 1 := Some (?w ! (?n - 1))] ! i
               = (if i = ?n - 1 then Some (?w ! (?n - 1))
                  else if i = 0 then Some (?w ! 0) else wildcard)"
        using i by (auto simp: nth_list_update simp del: One_nat_def)
      have r: "map (\<lambda>i. if i = 0 \<or> i = ?n - 1 then Some (?w ! i) else wildcard) [0..<?n] ! i
               = (if i = 0 \<or> i = ?n - 1 then Some (?w ! i) else wildcard)"
        by (rule nth_map_upt0[OF i])
      show "(replicate ?n wildcard)[0 := Some (?w ! 0), ?n - 1 := Some (?w ! (?n - 1))] ! i
            = map (\<lambda>i. if i = 0 \<or> i = ?n - 1 then Some (?w ! i) else wildcard) [0..<?n] ! i"
        unfolding l r by auto
    qed
    finally have "fst (lastResort words) = firstLastPattern ?w" .
    moreover have "?n \<noteq> 2" using more by simp
    ultimately show ?thesis by (simp only: if_False)
  qed
qed

text \<open>
  C6, amended. For every non-empty corpus of equal-length words, none containing the
  wildcard character, and every random source: when the words have at least three
  letters, the returned pattern has exactly two concrete slots and they are not
  adjacent, whichever of the three paths returns it; when the words have one or two
  letters, the returned pattern has a single concrete slot, the first.
\<close>

theorem generateTwoLetterPattern_two_separated_slots:
  assumes "words \<noteq> []"
    and "\<forall>w\<in>set words. length w = length (words ! 0) \<and> CHR ''_'' \<notin> set w"
  shows "(3 \<le> length (words ! 0) \<longrightarrow>
            twoSeparatedSlots (fst (generateTwoLetterPattern rnd words)))
       \<and> (1 \<le> length (words ! 0) \<and> length (words ! 0) \<le> 2 \<longrightarrow>
            concreteSlots (fst (generateTwoLetterPattern rnd words)) = [0])"
proof (intro conjI impI)
  assume long: "3 \<le> length (words ! 0)"
  show "twoSeparatedSlots (fst (generateTwoLetterPattern rnd words))"
  proof (cases "patternAttempts rnd words 5000 0 None")
    case (Found result)
    obtain p m where pm: "result = (p, m)" by (cases result)
    have "twoSeparatedSlots p"
      using patternAttempts_pattern[OF assms(1,2), of None rnd 5000 0 p m] Found pm by simp
    with Found pm assms(1) show ?thesis by (simp add: generateTwoLetterPattern_def)
  next
    case (Exhausted fallback)
    show ?thesis
    proof (cases fallback)
      case None
      have "words ! 0 \<in> set words" using assms(1) by simp
      then have "CHR ''_'' \<notin> set (words ! 0)" using assms(2) by blast
      from lastResort_pattern[OF long this] Exhausted None assms(1)
      show ?thesis by (simp add: generateTwoLetterPattern_def)
    next
      case (Some fb)
      obtain p m where pm: "fb = (p, m)" by (cases fb)
      have "twoSeparatedSlots p"
        using patternAttempts_pattern[OF assms(1,2), of None rnd 5000 0 p m] Exhausted Some pm
        by simp
      with Exhausted Some pm assms(1) show ?thesis by (simp add: generateTwoLetterPattern_def)
    qed
  qed
next
  let ?w = "words ! 0"
  assume short: "1 \<le> length ?w \<and> length ?w \<le> 2"
  then have one: "1 \<le> length ?w" and two: "length ?w \<le> 2" by simp_all
  have "patternAttempts rnd words 5000 0 None = Exhausted None"
    by (rule patternAttempts_idle) (simp add: two)
  then have g: "generateTwoLetterPattern rnd words = lastResort words"
    using assms(1) by (simp add: generateTwoLetterPattern_def)
  have "?w \<in> set words" using assms(1) by simp
  then have "CHR ''_'' \<notin> set ?w" using assms(2) by blast
  moreover have "?w ! 0 \<in> set ?w" using one by (cases ?w) simp_all
  ultimately have c: "Some (?w ! 0) \<noteq> wildcard" by (auto simp: wildcard_def)
  consider (l1) "length ?w = 1" | (l2) "length ?w = 2" using one two by linarith
  then have "concreteSlots (fst (lastResort words)) = [0]"
  proof cases
    case l1
    then have "fst (lastResort words) = [Some (?w ! 0)]"
      using lastResort_pattern_shape[OF one] by (simp add: firstLastPattern_def)
    with c show ?thesis by (simp add: concreteSlots_def)
  next
    case l2
    then have "fst (lastResort words) = [Some (?w ! 0), wildcard]"
      using lastResort_pattern_shape[OF one] by simp
    with c show ?thesis by (simp add: concreteSlots_def upt_rec)
  qed
  then show "concreteSlots (fst (generateTwoLetterPattern rnd words)) = [0]"
    by (simp only: g)
qed

theorem generateTwoLetterPattern_two_separated_slots_witness:
  "fst (generateTwoLetterPattern rndZero [''APPLE'', ''AMPLE'', ''AMPLY''])
     = [Some CHR ''A'', wildcard, Some CHR ''P'', wildcard, wildcard]
   \<and> twoSeparatedSlots (fst (generateTwoLetterPattern rndZero [''APPLE'', ''AMPLE'', ''AMPLY'']))
   \<and> concreteSlots (fst (generateTwoLetterPattern rndZero [''ON'', ''AT'', ''IT''])) = [0]
   \<and> concreteSlots (fst (generateTwoLetterPattern rndZero [''I'', ''A''])) = [0]"
proof -
  let ?ws = "[''APPLE'', ''AMPLE'', ''AMPLY'']"
  let ?w2 = "[''ON'', ''AT'', ''IT'']"
  let ?w1 = "[''I'', ''A'']"
  have a: "patternAttempt rndZero ?ws 0 None
           = Inl ([Some CHR ''A'', wildcard, Some CHR ''P'', wildcard, wildcard], ?ws)"
    by code_simp
  have "patternAttempts rndZero ?ws (Suc 4999) 0 None
        = Found ([Some CHR ''A'', wildcard, Some CHR ''P'', wildcard, wildcard], ?ws)"
    by (simp only: patternAttempts.simps a sum.case)
  then have g: "fst (generateTwoLetterPattern rndZero ?ws)
        = [Some CHR ''A'', wildcard, Some CHR ''P'', wildcard, wildcard]"
    by (simp add: generateTwoLetterPattern_def)
  have h1: "?ws \<noteq> []" by simp
  have h2: "\<forall>w\<in>set ?ws. length w = length (?ws ! 0) \<and> CHR ''_'' \<notin> set w" by simp
  have h3: "3 \<le> length (?ws ! 0)" by simp
  have s1: "?w2 \<noteq> []" by simp
  have s2: "\<forall>w\<in>set ?w2. length w = length (?w2 ! 0) \<and> CHR ''_'' \<notin> set w" by simp
  have s3: "1 \<le> length (?w2 ! 0) \<and> length (?w2 ! 0) \<le> 2" by simp
  have u1: "?w1 \<noteq> []" by simp
  have u2: "\<forall>w\<in>set ?w1. length w = length (?w1 ! 0) \<and> CHR ''_'' \<notin> set w" by simp
  have u3: "1 \<le> length (?w1 ! 0) \<and> length (?w1 ! 0) \<le> 2" by simp
  from g h3 s3 u3
    generateTwoLetterPattern_two_separated_slots [OF h1 h2, of rndZero]
    generateTwoLetterPattern_two_separated_slots [OF s1 s2, of rndZero]
    generateTwoLetterPattern_two_separated_slots [OF u1 u2, of rndZero]
  show ?thesis by blast
qed

text \<open>
  C7 (last resort). As stated the claim fails for two-letter words: the last letter is
  not fixed.
\<close>

theorem generateTwoLetterPattern_last_resort_counterexample:
  "patternAttempts rndZero [''AB''] 5000 0 None = Exhausted None
   \<and> fst (generateTwoLetterPattern rndZero [''AB'']) = [Some CHR ''A'', wildcard]
   \<and> firstLastPattern ''AB'' = [Some CHR ''A'', Some CHR ''B'']
   \<and> fst (generateTwoLetterPattern rndZero [''AB'']) \<noteq> firstLastPattern ''AB''"
proof -
  have g: "fst (generateTwoLetterPattern rndZero [''AB'']) = [Some CHR ''A'', wildcard]"
    by (simp add: generateTwoLetterPattern_def generate_short_AB lastResort_AB)
  have f: "firstLastPattern ''AB'' = [Some CHR ''A'', Some CHR ''B'']"
    by (simp add: firstLastPattern_def upt_rec)
  from g f generate_short_AB show ?thesis by (simp add: wildcard_def)
qed

text \<open>
  C7, amended. For a non-empty corpus of non-empty words on which the search ends
  without a fallback, the result is the pattern of the first corpus word that fixes its
  first letter and, unless the word has exactly two letters, its last letter, with
  wildcards in all other slots, paired with the corpus words that match this pattern.
  For a two-letter word only the first letter is fixed.
\<close>

theorem generateTwoLetterPattern_last_resort:
  assumes "words \<noteq> []"
    and "patternAttempts rnd words 5000 0 None = Exhausted None"
    and "1 \<le> length (words ! 0)"
  shows "fst (generateTwoLetterPattern rnd words)
           = (if length (words ! 0) = 2 then [Some (words ! 0 ! 0), wildcard]
              else firstLastPattern (words ! 0))
         \<and> snd (generateTwoLetterPattern rnd words)
           = filter (\<lambda>w. matchesPattern w (fst (generateTwoLetterPattern rnd words))) words"
proof -
  have g: "generateTwoLetterPattern rnd words = lastResort words"
    using assms(1,2) by (simp add: generateTwoLetterPattern_def)
  have "snd (lastResort words) = filter (\<lambda>w. matchesPattern w (fst (lastResort words))) words"
    by (simp add: lastResort_def Let_def)
  with lastResort_pattern_shape[OF assms(3)] show ?thesis by (simp only: g)
qed

theorem generateTwoLetterPattern_last_resort_witness:
  "patternAttempts rndZero [''ABC''] 5000 0 None = Exhausted None
   \<and> fst (generateTwoLetterPattern rndZero [''ABC'']) = [Some CHR ''A'', wildcard, Some CHR ''C'']
   \<and> snd (generateTwoLetterPattern rndZero [''ABC''])
     = filter (\<lambda>w. matchesPattern w (fst (generateTwoLetterPattern rndZero [''ABC'']))) [''ABC'']"
proof -
  have h1: "[''ABC''] \<noteq> []" by simp
  have h2: "patternAttempts rndZero [''ABC''] 5000 0 None = Exhausted None"
    by (rule patternAttempts_idle) simp
  have h3: "1 \<le> length ([''ABC''] ! 0)" by simp
  have f: "firstLastPattern ''ABC'' = [Some CHR ''A'', wildcard, Some CHR ''C'']"
    by (simp add: firstLastPattern_def upt_rec)
  from generateTwoLetterPattern_last_resort [OF h1 h2 h3] h2 f show ?thesis by simp
qed

end
